theory Spec2Isabelle
  imports Main
begin

section \<open>Values, errors and graph nodes\<close>

text \<open>
  The broker of \<^verbatim>\<open>src/src/broker.js\<close> (first version in the file, lines 30-408) keeps
  three registries of named entries and drives their start and stop routines.  JavaScript
  values are modelled only as far as the broker inspects them: whether a value is a
  function (\<^verbatim>\<open>isFunction\<close>) and whether it is truthy (\<^verbatim>\<open>!action.initializedFn\<close>).
\<close>

datatype jsval =
    Undefined
  | Null
  | Boolean bool
  | Num int
  | Str string
  | Fn nat
  | Obj "(string \<times> jsval) list"

fun isFunction :: "jsval \<Rightarrow> bool" where
  "isFunction (Fn f) = True"
| "isFunction v = False"

fun truthy :: "jsval \<Rightarrow> bool" where
  "truthy Undefined = False"
| "truthy Null = False"
| "truthy (Boolean b) = b"
| "truthy (Num n) = (n \<noteq> 0)"
| "truthy (Str s) = (s \<noteq> [])"
| "truthy (Fn f) = True"
| "truthy (Obj kvs) = True"

text \<open>
  \<^verbatim>\<open>throw new Error(msg)\<close> is \<open>Error msg\<close>; reading a property of \<^verbatim>\<open>undefined\<close>
  (a registry lookup that found nothing) is \<open>TypeError\<close>.
\<close>

datatype error = Error string | TypeError

text \<open>
  A node of the ephemeral dependency graph: a component name, or the fresh
  \<^verbatim>\<open>Symbol('service-singleton')\<close> / \<^verbatim>\<open>Symbol('service-action')\<close> that
  stands for the requesting service.
\<close>

datatype node = ServiceNode | Name string

type_synonym graph = "(node \<times> node) list"

text \<open>The imported \<^verbatim>\<open>sort = require('toposort')\<close>: from an edge list to a node list, or a throw.
  It is a parameter \<open>sort'\<close> of every operation that reaches it.\<close>

type_synonym sorter = "graph \<Rightarrow> error + node list"

subsection \<open>Arrays, sets and strings of the host language\<close>

text \<open>\<^verbatim>\<open>Array.prototype.join\<close>.\<close>

fun join :: "string \<Rightarrow> string list \<Rightarrow> string" where
  "join sep [] = []"
| "join sep [x] = x"
| "join sep (x # y # ys) = x @ sep @ join sep (y # ys)"

text \<open>
  A JavaScript \<^verbatim>\<open>Set\<close> iterates in insertion order, so it is a list without
  repetitions: \<open>setAdd\<close> is \<^verbatim>\<open>Set.prototype.add\<close>, \<open>newSet\<close> is
  \<^verbatim>\<open>new Set(iterable)\<close>.
\<close>

definition setAdd :: "'a \<Rightarrow> 'a list \<Rightarrow> 'a list" where
  "setAdd x s = (if x \<in> set s then s else s @ [x])"

definition newSet :: "'a list \<Rightarrow> 'a list" where
  "newSet xs = foldl (\<lambda>s x. setAdd x s) [] xs"

section \<open>Dependency resolution\<close>

text \<open>
  The local function \<^verbatim>\<open>getDependencies(name, dependedBy = [])\<close> is written twice in
  the source (lines 304-313 for singletons, 365-374 for actions); both copies differ only
  in the registry they read, the accessor they call on an entry and one word of the
  message.  Here \<open>reg\<close> is the registry in enumeration order, \<open>req\<close> the accessor
  (\<^verbatim>\<open>getRequiredSingletons()\<close> or \<^verbatim>\<open>getRequiredActions()\<close>) and \<open>kind\<close> the word.
  \<open>getDependencies_forEach\<close> is the \<^verbatim>\<open>forEach\<close> over the entry's requirements; the
  fourth list is the part of that array still to be visited, the last argument is the set
  \<^verbatim>\<open>allSingletons\<close> / \<^verbatim>\<open>allActions\<close> the closure mutates.
\<close>

function getDependencies ::
    "string \<Rightarrow> ('a \<Rightarrow> string list) \<Rightarrow> (string \<times> 'a) list \<Rightarrow> string \<Rightarrow> string list \<Rightarrow>
     string list \<Rightarrow> error + string list"
  and getDependencies_forEach ::
    "string \<Rightarrow> ('a \<Rightarrow> string list) \<Rightarrow> (string \<times> 'a) list \<Rightarrow> string \<Rightarrow> string list \<Rightarrow>
     string list \<Rightarrow> string list \<Rightarrow> error + string list"
where
  "getDependencies kind req reg name dependedBy allS =
     (case map_of reg name of
        None \<Rightarrow> Inl TypeError
      | Some entry \<Rightarrow>
          getDependencies_forEach kind req reg name dependedBy (req entry) (setAdd name allS))"
| "getDependencies_forEach kind req reg name dependedBy [] allS = Inr allS"
| "getDependencies_forEach kind req reg name dependedBy (n # ns) allS =
     (if name \<in> set dependedBy
      then Inl (Error (''Found '' @ kind @ '' circular dependency: '' @
                       join '' -> '' (dependedBy @ [name, n])))
      else (case getDependencies kind req reg n (dependedBy @ [name]) allS of
              Inl e \<Rightarrow> Inl e
            | Inr allS' \<Rightarrow> getDependencies_forEach kind req reg name dependedBy ns allS'))"
  by pat_completeness auto

termination
proof (relation "inv_image (less_than <*lex*> less_than <*lex*> less_than)
    (\<lambda>x. case x of
        Inl (kind, req, reg, name, dependedBy, allS) \<Rightarrow>
          (card (fst ` set reg - set dependedBy), 1::nat, 0::nat)
      | Inr (kind, req, reg, name, dependedBy, ns, allS) \<Rightarrow>
          (card (insert name (fst ` set reg) - set dependedBy), 0, length ns))", goal_cases)
  case 1
  show ?case by (intro wf_inv_image wf_lex_prod wf_less_than)
next
  case (2 kind req reg name dependedBy allS entry)
  then have "name \<in> fst ` set reg"
    by (metis map_of_SomeD fst_conv image_eqI)
  then have "insert name (fst ` set reg) = fst ` set reg" by auto
  then show ?case by simp
next
  case (3 kind req reg name dependedBy n ns allS)
  have "insert name (fst ` set reg) - set dependedBy =
        insert name (fst ` set reg - set (dependedBy @ [name]))"
    using 3 by auto
  moreover have "name \<notin> fst ` set reg - set (dependedBy @ [name])" by simp
  ultimately have "card (fst ` set reg - set (dependedBy @ [name])) <
        card (insert name (fst ` set reg) - set dependedBy)"
    by (simp add: card_insert_if)
  then show ?case by simp
next
  case 4
  then show ?case by simp
qed

text \<open>\<^verbatim>\<open>required.forEach(name => getDependencies(name))\<close>, lines 294 and 346.\<close>

fun getDependencies_roots ::
    "string \<Rightarrow> ('a \<Rightarrow> string list) \<Rightarrow> (string \<times> 'a) list \<Rightarrow> string list \<Rightarrow>
     string list \<Rightarrow> error + string list" where
  "getDependencies_roots kind req reg [] allS = Inr allS"
| "getDependencies_roots kind req reg (name # names) allS =
     (case getDependencies kind req reg name [] allS of
        Inl e \<Rightarrow> Inl e
      | Inr allS' \<Rightarrow> getDependencies_roots kind req reg names allS')"

subsection \<open>Registry entries\<close>

text \<open>
  The classes \<^verbatim>\<open>Singleton\<close>, \<^verbatim>\<open>Action\<close>, \<^verbatim>\<open>Plugin\<close> and \<^verbatim>\<open>Service\<close> are
  required by the broker (lines 21-24) but are not among the sources; the records hold
  exactly the members the broker reads or writes.  A routine supplied by the user is a pure
  function of the dependency bag it receives: \<open>Inr v\<close> when it returns (or resolves to)
  \<open>v\<close>, \<open>Inl e\<close> when it throws (or rejects).  A routine without arguments is its
  outcome: \<open>None\<close> when it returns, \<open>Some e\<close> when it throws.
\<close>

record singleton =
  singletonRequires :: "string list"
  start :: "jsval \<Rightarrow> error + jsval"
  stop :: "error option"
  started :: bool
  inst :: jsval

record action =
  actionActions :: "string list"
  actionSingletons :: "string list"
  actionPlugins :: "string list"
  fn :: "jsval \<Rightarrow> error + jsval"
  initializedFn :: jsval

record plugin =
  pluginStart :: "jsval \<Rightarrow> error + jsval"

record service =
  serviceSingletons :: "string list"
  serviceActions :: "string list"
  serviceLocalActions :: "string list"
  localActions :: "(string \<times> action) list"
  startHandler :: "jsval \<Rightarrow> error option"
  stopHandler :: "error option option"
  isRunning :: bool
  depSingletons :: "node list"
  depActions :: "node list"

text \<open>
  In the records: \<open>singletonRequires\<close> is \<^verbatim>\<open>getRequiredSingletons()\<close> of a singleton,
  \<open>inst\<close> its \<^verbatim>\<open>instance\<close>; \<open>actionActions\<close>, \<open>actionSingletons\<close> are
  \<^verbatim>\<open>getRequiredActions()\<close>, \<^verbatim>\<open>getRequiredSingletons()\<close> of an action and
  \<open>actionPlugins\<close> the plugin names it declares; \<open>serviceSingletons\<close>,
  \<open>serviceActions\<close>, \<open>serviceLocalActions\<close> are \<^verbatim>\<open>getRequiredSingletons()\<close>,
  \<^verbatim>\<open>getRequiredActions()\<close>, \<^verbatim>\<open>getRequiredLocalActions()\<close> of a service;
  \<open>depSingletons\<close>, \<open>depActions\<close> are \<^verbatim>\<open>dependencies.singletons\<close> and
  \<^verbatim>\<open>dependencies.actions\<close>; \<open>stopHandler = None\<close> is a service without one.
\<close>

subsection \<open>sortSingletons and sortActions\<close>

text \<open>
  \<^verbatim>\<open>allSingletons.forEach(name => singletons[name].getRequiredSingletons()
  .forEach(n => graph.push([name, n])))\<close>, lines 296-298.
\<close>

fun sortSingletons_edges ::
    "(string \<times> singleton) list \<Rightarrow> string list \<Rightarrow> graph \<Rightarrow> error + graph" where
  "sortSingletons_edges sgl [] graph = Inr graph"
| "sortSingletons_edges sgl (name # names) graph =
     (case map_of sgl name of
        None \<Rightarrow> Inl TypeError
      | Some s \<Rightarrow>
          sortSingletons_edges sgl names
            (graph @ map (\<lambda>n. (Name name, Name n)) (singletonRequires s)))"

text \<open>
  Lines 287-302.  The result is \<^verbatim>\<open>sort(graph).reverse().slice(0, -1)\<close>: the sorted
  nodes reversed, without the last one.
\<close>

definition sortSingletons ::
    "sorter \<Rightarrow> (string \<times> singleton) list \<Rightarrow> string list \<Rightarrow> error + node list" where
  "sortSingletons sort' sgl requiredSingletons =
     (let graph = map (\<lambda>i. (ServiceNode, Name i)) requiredSingletons;
          allSingletons = newSet requiredSingletons
      in case getDependencies_roots ''singletons'' singletonRequires sgl
                requiredSingletons allSingletons of
           Inl e \<Rightarrow> Inl e
         | Inr allSingletons' \<Rightarrow>
             (case sortSingletons_edges sgl allSingletons' graph of
                Inl e \<Rightarrow> Inl e
              | Inr graph' \<Rightarrow>
                  (case sort' graph' of
                     Inl e \<Rightarrow> Inl e
                   | Inr out \<Rightarrow> Inr (butlast (rev out)))))"

text \<open>\<^verbatim>\<open>difference(array, values)\<close> of lodash, for names against resolved nodes.\<close>

definition difference :: "string list \<Rightarrow> node list \<Rightarrow> string list" where
  "difference array vals = filter (\<lambda>x. Name x \<notin> set vals) array"

text \<open>
  The loop of lines 348-359: for every collected action, the check that its singletons
  are among the resolved ones, then its edges.
\<close>

fun sortActions_edges ::
    "(string \<times> action) list \<Rightarrow> node list \<Rightarrow> string list \<Rightarrow> graph \<Rightarrow> error + graph" where
  "sortActions_edges acts singletons [] graph = Inr graph"
| \<open>sortActions_edges acts singletons (name # names) graph =
     (case map_of acts name of
        None \<Rightarrow> Inl TypeError
      | Some a \<Rightarrow>
          (let notIncluded = difference (actionSingletons a) singletons
           in if notIncluded \<noteq> []
              then Inl (Error (''Action "'' @ name @ ''" requires not included singleton(s): "'' @
                               join ''", "'' notIncluded @
                               ''". Please add them to service definition''))
              else sortActions_edges acts singletons names
                     (graph @ map (\<lambda>n. (Name name, Name n)) (actionActions a))))\<close>

text \<open>Lines 339-363.\<close>

definition sortActions ::
    "sorter \<Rightarrow> (string \<times> action) list \<Rightarrow> string list \<Rightarrow> node list \<Rightarrow> error + node list" where
  "sortActions sort' acts requiredActions singletons =
     (let allActions = newSet requiredActions;
          graph = map (\<lambda>i. (ServiceNode, Name i)) requiredActions
      in case getDependencies_roots ''actions'' actionActions acts requiredActions allActions of
           Inl e \<Rightarrow> Inl e
         | Inr allActions' \<Rightarrow>
             (case sortActions_edges acts singletons allActions' graph of
                Inl e \<Rightarrow> Inl e
              | Inr graph' \<Rightarrow>
                  (case sort' graph' of
                     Inl e \<Rightarrow> Inl e
                   | Inr out \<Rightarrow> Inr (butlast (rev out)))))"

subsection \<open>The topological sort\<close>

text \<open>
  Modelled from the spec: the package \<^verbatim>\<open>toposort\<close> required at line 13 is not among
  the sources.  The spec (section 4.1) has the edge list fed to a topological sort whose
  output, reversed, gives dependencies before dependents; an edge points from dependent to
  dependency, so the sort puts the source of every edge before its target.  \<open>toposort\<close>
  is such a sort, depth first: \<open>uniqueNodes\<close> lists the nodes of the edges in order of
  first appearance, \<open>outgoing\<close> the targets of a node's edges, \<open>visit\<close> finishes a
  node after its targets and throws on a node met again on the path that leads to it, and
  the nodes are written into the result from its end to its start.
\<close>

definition uniqueNodes :: "('a \<times> 'a) list \<Rightarrow> 'a list" where
  "uniqueNodes arr = foldl (\<lambda>res e. setAdd (snd e) (setAdd (fst e) res)) [] arr"

definition outgoing :: "('a \<times> 'a) list \<Rightarrow> 'a \<Rightarrow> 'a list" where
  "outgoing edges node = newSet (map snd (filter (\<lambda>e. fst e = node) edges))"

function visit ::
    "('a \<times> 'a) list \<Rightarrow> 'a list \<Rightarrow> 'a \<Rightarrow> 'a list \<Rightarrow> 'a list \<times> 'a list \<Rightarrow>
     error + 'a list \<times> 'a list"
  and visit_children ::
    "('a \<times> 'a) list \<Rightarrow> 'a list \<Rightarrow> 'a list \<Rightarrow> 'a list \<Rightarrow> 'a list \<times> 'a list \<Rightarrow>
     error + 'a list \<times> 'a list"
where
  "visit edges nodes node predecessors (visited, res) =
     (if node \<in> set predecessors then Inl (Error ''Cyclic dependency'')
      else if node \<notin> set nodes then Inl (Error ''Found unknown node'')
      else if node \<in> set visited then Inr (visited, res)
      else (case visit_children edges nodes (rev (outgoing edges node)) (node # predecessors)
                   (node # visited, res) of
              Inl e \<Rightarrow> Inl e
            | Inr (visited', res') \<Rightarrow> Inr (visited', node # res')))"
| "visit_children edges nodes [] predecessors st = Inr st"
| "visit_children edges nodes (child # children) predecessors st =
     (case visit edges nodes child predecessors st of
        Inl e \<Rightarrow> Inl e
      | Inr st' \<Rightarrow> visit_children edges nodes children predecessors st')"
  by pat_completeness auto

termination
proof (relation "inv_image (less_than <*lex*> less_than <*lex*> less_than)
    (\<lambda>x. case x of
        Inl (edges, nodes, node, predecessors, st) \<Rightarrow>
          (card (set nodes - set predecessors), 0::nat, 0::nat)
      | Inr (edges, nodes, children, predecessors, st) \<Rightarrow>
          (card (set nodes - set predecessors), 1, length children))", goal_cases)
  case 1
  show ?case by (intro wf_inv_image wf_lex_prod wf_less_than)
next
  case (2 edges nodes node predecessors visited res)
  then have "set nodes - set (node # predecessors) \<subset> set nodes - set predecessors"
    by auto
  then have "card (set nodes - set (node # predecessors)) < card (set nodes - set predecessors)"
    by (intro psubset_card_mono) auto
  then show ?case by simp
next
  case 3
  then show ?case by simp
next
  case 4
  then show ?case by simp
qed

text \<open>The outer loop \<^verbatim>\<open>while (i--) if (!visited[i]) visit(nodes[i], i, new Set())\<close>.\<close>

fun toposort_loop ::
    "('a \<times> 'a) list \<Rightarrow> 'a list \<Rightarrow> 'a list \<Rightarrow> 'a list \<times> 'a list \<Rightarrow> error + 'a list \<times> 'a list" where
  "toposort_loop edges nodes [] st = Inr st"
| "toposort_loop edges nodes (n # ns) st =
     (case visit edges nodes n [] st of
        Inl e \<Rightarrow> Inl e
      | Inr st' \<Rightarrow> toposort_loop edges nodes ns st')"

definition toposort :: "('a \<times> 'a) list \<Rightarrow> error + 'a list" where
  "toposort edges =
     (let nodes = uniqueNodes edges
      in case toposort_loop edges nodes (rev nodes) ([], []) of
           Inl e \<Rightarrow> Inl e
         | Inr (visited, res) \<Rightarrow> Inr res)"

section \<open>The broker\<close>

text \<open>
  The broker's four registries are objects keyed by name; an object enumerates its keys in
  insertion order, so each registry is an association list in that order.  (Keys that look
  like array indices, which JavaScript enumerates first, are not modelled.)  A read of a
  name that is not a key falls through to \<^verbatim>\<open>Object.prototype\<close>; where the broker
  tests or copies what it read, the model does the same (\<open>truthyAt\<close>,
  \<open>instancesOf\<close>, \<open>initializedFnsOf\<close>, \<open>instancesAt\<close>), and where it calls
  a method of what it read, the call throws a \<^verbatim>\<open>TypeError\<close> on a member of the
  prototype as it does on \<^verbatim>\<open>undefined\<close>.  \<open>trace\<close> is not a member of the class:
  it records every invocation of a user routine, in order, so that statements about which
  routines ran can be made.
\<close>

datatype event =
    SingletonStart string jsval
  | SingletonStop string
  | ActionCompose string jsval
  | ServiceStart string jsval
  | ServiceStop string

record broker =
  singletons :: "(string \<times> singleton) list"
  actions :: "(string \<times> action) list"
  plugins :: "(string \<times> plugin) list"
  services :: "(string \<times> service) list"
  trace :: "event list"

text \<open>
  \<open>setProp\<close> is the assignment \<^verbatim>\<open>obj[k] = v\<close>: an existing key keeps its place.
  \<open>updEntry\<close> is a write to a member of the object stored under a key, \<open>lookup\<close> the
  read \<^verbatim>\<open>obj[n]\<close> for a node (a symbol is never a key of a registry).
\<close>

fun setProp :: "string \<Rightarrow> 'v \<Rightarrow> (string \<times> 'v) list \<Rightarrow> (string \<times> 'v) list" where
  "setProp k v [] = [(k, v)]"
| "setProp k v (p # ps) = (if fst p = k then (k, v) # ps else p # setProp k v ps)"

definition updEntry :: "string \<Rightarrow> ('v \<Rightarrow> 'v) \<Rightarrow> (string \<times> 'v) list \<Rightarrow> (string \<times> 'v) list" where
  "updEntry name f reg = map (\<lambda>p. if fst p = name then (fst p, f (snd p)) else p) reg"

definition lookup :: "(string \<times> 'v) list \<Rightarrow> node \<Rightarrow> 'v option" where
  "lookup reg n = (case n of ServiceNode \<Rightarrow> None | Name k \<Rightarrow> map_of reg k)"

text \<open>
  The imported \<^verbatim>\<open>set\<close> and \<^verbatim>\<open>pick\<close> of lodash (lines 4-11), which read a name
  as a path: \<open>lodash_set lo obj path v\<close> is the object \<open>obj\<close> after
  \<^verbatim>\<open>set(obj, path, v)\<close>, and \<open>lodash_pick lo obj paths\<close> the object that
  \<^verbatim>\<open>pick(obj, paths)\<close> returns.  The library is a parameter \<open>lo\<close> of every
  operation that reaches it; a value has no identity in the model, so \<^verbatim>\<open>set\<close> is a
  function of the object, the path and the value.
\<close>

record lodash =
  lodash_set :: "(string \<times> jsval) list \<Rightarrow> string \<Rightarrow> jsval \<Rightarrow> (string \<times> jsval) list"
  lodash_pick :: "(string \<times> jsval) list \<Rightarrow> string list \<Rightarrow> (string \<times> jsval) list"

text \<open>A \<^verbatim>\<open>forEach\<close> whose callback may throw: the first throw ends it.\<close>

fun forEach :: "('a \<Rightarrow> error option) \<Rightarrow> 'a list \<Rightarrow> error option" where
  "forEach f [] = None"
| "forEach f (x # xs) = (case f x of Some e \<Rightarrow> Some e | None \<Rightarrow> forEach f xs)"

subsection \<open>Construction\<close>

text \<open>
  Lines 42-185, for registries given as constructed entries and no path to load from
  (\<^verbatim>\<open>loadFiles\<close> is outside the sources).  \<open>withLocalActions\<close> is lines 134-138,
  the three checks are lines 160-184.

  The registries are plain objects (the \<^verbatim>\<open>{}\<close> of lines 52-55 and of the
  \<^verbatim>\<open>reduce\<close> calls), so a read \<^verbatim>\<open>registry[x]\<close> of a name that is not a key
  falls through to \<^verbatim>\<open>Object.prototype\<close>.  Its members are functions, and
  \<^verbatim>\<open>__proto__\<close> reads as the prototype itself: all truthy, as is a registered entry,
  which is an object.  \<open>truthyAt reg x\<close> is the truthiness of \<^verbatim>\<open>reg[x]\<close>, which
  the checks negate.
\<close>

definition objectPrototype :: "string list" where
  "objectPrototype =
     [''constructor'', ''__defineGetter__'', ''__defineSetter__'', ''hasOwnProperty'',
      ''__lookupGetter__'', ''__lookupSetter__'', ''isPrototypeOf'', ''propertyIsEnumerable'',
      ''toString'', ''valueOf'', ''__proto__'', ''toLocaleString'']"

definition truthyAt :: "(string \<times> 'e) list \<Rightarrow> string \<Rightarrow> bool" where
  "truthyAt reg x = (map_of reg x \<noteq> None \<or> x \<in> set objectPrototype)"

definition withLocalActions ::
    "(string \<times> service) list \<Rightarrow> (string \<times> action) list \<Rightarrow> (string \<times> action) list" where
  "withLocalActions srvs acts =
     foldl (\<lambda>res p.
        foldl (\<lambda>res' q. setProp (fst p @ ''#'' @ fst q) (snd q) res') res (localActions (snd p)))
       acts srvs"

definition startsWith :: "string \<Rightarrow> string \<Rightarrow> bool" where
  "startsWith s pre = (take (length pre) s = pre)"

definition checkServices ::
    "(string \<times> singleton) list \<Rightarrow> (string \<times> action) list \<Rightarrow> (string \<times> service) list \<Rightarrow>
     error option" where
  \<open>checkServices sgl acts srvs =
     forEach (\<lambda>p.
        case forEach (\<lambda>singleton.
               if \<not> truthyAt sgl singleton
               then Some (Error (''Service "'' @ fst p @ ''" requires unknown singleton "'' @
                                 singleton @ ''"''))
               else None) (serviceSingletons (snd p)) of
          Some e \<Rightarrow> Some e
        | None \<Rightarrow>
            forEach (\<lambda>action.
               if \<not> startsWith action ''#'' \<and> \<not> truthyAt acts action
               then Some (Error (''Service "'' @ fst p @ ''" requires unknown action "'' @
                                 action @ ''"''))
               else None) (serviceActions (snd p))) srvs\<close>

definition checkSingletons :: "(string \<times> singleton) list \<Rightarrow> error option" where
  \<open>checkSingletons sgl =
     forEach (\<lambda>p.
        forEach (\<lambda>s.
           if \<not> truthyAt sgl s
           then Some (Error (''Singleton "'' @ fst p @ ''" requires unknown singleton "'' @
                             s @ ''"''))
           else None) (singletonRequires (snd p))) sgl\<close>

definition checkActions ::
    "(string \<times> singleton) list \<Rightarrow> (string \<times> action) list \<Rightarrow> error option" where
  \<open>checkActions sgl acts =
     forEach (\<lambda>p.
        forEach (\<lambda>s.
           if \<not> truthyAt sgl s
           then Some (Error (''Action "'' @ fst p @ ''" requires unknown singleton "'' @
                             s @ ''"''))
           else None) (actionSingletons (snd p))) acts\<close>

definition Broker ::
    "(string \<times> singleton) list \<Rightarrow> (string \<times> action) list \<Rightarrow> (string \<times> plugin) list \<Rightarrow>
     (string \<times> service) list \<Rightarrow> error + broker" where
  "Broker sgl acts plgs srvs =
     (let acts' = withLocalActions srvs acts
      in case checkServices sgl acts' srvs of
           Some e \<Rightarrow> Inl e
         | None \<Rightarrow>
             (case checkSingletons sgl of
                Some e \<Rightarrow> Inl e
              | None \<Rightarrow>
                  (case checkActions sgl acts' of
                     Some e \<Rightarrow> Inl e
                   | None \<Rightarrow>
                       Inr \<lparr>singletons = sgl, actions = acts', plugins = plgs,
                            services = srvs, trace = []\<rparr>)))"

subsection \<open>Service lookup\<close>

text \<open>
  Lines 252-279.  A name is a string by its type, so the \<^verbatim>\<open>isString\<close> guard of
  \<^verbatim>\<open>getServiceByName\<close> never fires.  The lookup is that of a registered service:
  for a name that only \<^verbatim>\<open>Object.prototype\<close> has, the code hands out that member,
  which is no service; calls for such names are not modelled.
\<close>

definition getServiceByName :: "broker \<Rightarrow> string \<Rightarrow> error + service" where
  \<open>getServiceByName b name =
     (case map_of (services b) name of
        None \<Rightarrow> Inl (Error (''Service with name "'' @ name @ ''" not found''))
      | Some srv \<Rightarrow> Inr srv)\<close>

definition isServiceRunning :: "broker \<Rightarrow> string \<Rightarrow> error + bool" where
  "isServiceRunning b name =
     (case getServiceByName b name of Inl e \<Rightarrow> Inl e | Inr srv \<Rightarrow> Inr (isRunning srv))"

definition getRunningServices :: "broker \<Rightarrow> string list" where
  "getRunningServices b =
     filter (\<lambda>name. isServiceRunning b name = Inr True) (map fst (services b))"

subsection \<open>startSingletons\<close>

text \<open>
  The \<^verbatim>\<open>reduce\<close> of lines 324-327: the instances of the named singletons, assigned
  to the keys of an object.  A name that is not a key of the registry reads as the member
  of \<^verbatim>\<open>Object.prototype\<close> it names, whose \<^verbatim>\<open>instance\<close> is undefined (assigning
  undefined to \<^verbatim>\<open>__proto__\<close> changes nothing); any other name reads as undefined,
  of which no member can be read.
\<close>

fun instancesOf ::
    "(string \<times> singleton) list \<Rightarrow> string list \<Rightarrow> (string \<times> jsval) list \<Rightarrow>
     error + (string \<times> jsval) list" where
  "instancesOf sgl [] res = Inr res"
| "instancesOf sgl (n # ns) res =
     (case map_of sgl n of
        Some s \<Rightarrow> instancesOf sgl ns (setProp n (inst s) res)
      | None \<Rightarrow>
          if n \<in> set objectPrototype
          then instancesOf sgl ns (if n = ''__proto__'' then res else setProp n Undefined res)
          else Inl TypeError)"

text \<open>
  Lines 328-329 up to the \<^verbatim>\<open>await\<close>: the flag is set and the start routine is
  invoked on the bag.  The call waits here until the routine settles, and assigns the
  instance when it resumes.
\<close>

definition startSingletons_await :: "broker \<Rightarrow> string \<Rightarrow> jsval \<Rightarrow> broker" where
  "startSingletons_await b k bag =
     b\<lparr>singletons := updEntry k (\<lambda>s. s\<lparr>started := True\<rparr>) (singletons b),
       trace := trace b @ [SingletonStart k bag]\<rparr>"

text \<open>
  One turn of the loop of lines 320-333: the broker afterwards, and the pair stored into
  \<^verbatim>\<open>result\<close> unless the turn threw.
\<close>

definition startSingletons_step ::
    "broker \<Rightarrow> node \<Rightarrow> broker \<times> (error + string \<times> jsval)" where
  "startSingletons_step b name =
     (case name of
        ServiceNode \<Rightarrow> (b, Inl TypeError)
      | Name k \<Rightarrow>
          (case map_of (singletons b) k of
             None \<Rightarrow> (b, Inl TypeError)
           | Some singleton \<Rightarrow>
               if \<not> started singleton
               then (case instancesOf (singletons b) (singletonRequires singleton) [] of
                       Inl e \<Rightarrow> (b, Inl e)
                     | Inr deps \<Rightarrow>
                         (let bag = Obj [(''singletons'', Obj deps)];
                              b1 = startSingletons_await b k bag
                          in case start singleton bag of
                               Inl e \<Rightarrow> (b1, Inl e)
                             | Inr v \<Rightarrow>
                                 (b1\<lparr>singletons :=
                                       updEntry k (\<lambda>s. s\<lparr>inst := v\<rparr>) (singletons b1)\<rparr>,
                                  Inr (k, v))))
               else (b, Inr (k, inst singleton))))"

fun startSingletons_loop ::
    "broker \<Rightarrow> node list \<Rightarrow> (string \<times> jsval) list \<Rightarrow>
     broker \<times> (error + (string \<times> jsval) list)" where
  "startSingletons_loop b [] result = (b, Inr result)"
| "startSingletons_loop b (name # names) result =
     (case startSingletons_step b name of
        (b', Inl e) \<Rightarrow> (b', Inl e)
      | (b', Inr (k, v)) \<Rightarrow> startSingletons_loop b' names (setProp k v result))"

definition startSingletons ::
    "broker \<Rightarrow> node list \<Rightarrow> broker \<times> (error + (string \<times> jsval) list)" where
  "startSingletons b names = startSingletons_loop b names []"

subsection \<open>startActions\<close>

text \<open>
  The \<^verbatim>\<open>forEach\<close> of lines 386-388 and that of lines 391-393: each value is put
  into the object by \<^verbatim>\<open>set\<close>, at the path its name spells.  Names that are not keys
  of the registry read as in \<open>instancesOf\<close>.
\<close>

fun initializedFnsOf ::
    "lodash \<Rightarrow> (string \<times> action) list \<Rightarrow> string list \<Rightarrow> (string \<times> jsval) list \<Rightarrow>
     error + (string \<times> jsval) list" where
  "initializedFnsOf lo acts [] res = Inr res"
| "initializedFnsOf lo acts (n # ns) res =
     (case map_of acts n of
        Some a \<Rightarrow> initializedFnsOf lo acts ns (lodash_set lo res n (initializedFn a))
      | None \<Rightarrow>
          if n \<in> set objectPrototype
          then initializedFnsOf lo acts ns (lodash_set lo res n Undefined)
          else Inl TypeError)"

fun instancesAt ::
    "lodash \<Rightarrow> (string \<times> singleton) list \<Rightarrow> string list \<Rightarrow> (string \<times> jsval) list \<Rightarrow>
     error + (string \<times> jsval) list" where
  "instancesAt lo sgl [] res = Inr res"
| "instancesAt lo sgl (n # ns) res =
     (case map_of sgl n of
        Some s \<Rightarrow> instancesAt lo sgl ns (lodash_set lo res n (inst s))
      | None \<Rightarrow>
          if n \<in> set objectPrototype
          then instancesAt lo sgl ns (lodash_set lo res n Undefined)
          else Inl TypeError)"

text \<open>\<^verbatim>\<open>name.includes('#') ? name.split('#')[1] : name\<close>, line 401.\<close>

definition realName :: "string \<Rightarrow> string" where
  "realName name =
     (if CHR ''#'' \<in> set name
      then takeWhile (\<lambda>c. c \<noteq> CHR ''#'') (tl (dropWhile (\<lambda>c. c \<noteq> CHR ''#'') name))
      else name)"

text \<open>One turn of the loop of lines 381-403.\<close>

definition startActions_step ::
    "lodash \<Rightarrow> broker \<Rightarrow> node \<Rightarrow> broker \<times> (error + string \<times> jsval)" where
  \<open>startActions_step lo b name =
     (case name of
        ServiceNode \<Rightarrow> (b, Inl TypeError)
      | Name k \<Rightarrow>
          (case map_of (actions b) k of
             None \<Rightarrow> (b, Inl TypeError)
           | Some action \<Rightarrow>
               if \<not> truthy (initializedFn action)
               then (case initializedFnsOf lo (actions b) (actionActions action) [] of
                       Inl e \<Rightarrow> (b, Inl e)
                     | Inr acts \<Rightarrow>
                         (case instancesAt lo (singletons b) (actionSingletons action) [] of
                            Inl e \<Rightarrow> (b, Inl e)
                          | Inr sgls \<Rightarrow>
                              (let bag = Obj [(''actions'', Obj acts), (''singletons'', Obj sgls)];
                                   b1 = b\<lparr>trace := trace b @ [ActionCompose k bag]\<rparr>
                               in case fn action bag of
                                    Inl e \<Rightarrow> (b1, Inl e)
                                  | Inr v \<Rightarrow>
                                      (let b2 = b1\<lparr>actions :=
                                                  updEntry k (\<lambda>a. a\<lparr>initializedFn := v\<rparr>)
                                                    (actions b1)\<rparr>
                                       in if \<not> isFunction v
                                          then (b2, Inl (Error (''Action "'' @ k @
                                                               ''" did not return function'')))
                                          else (b2, Inr (realName k, v))))))
               else (b, Inr (realName k, initializedFn action))))\<close>

text \<open>
  The loop: a turn that did not throw yields the name and the value that line 402 puts
  into \<^verbatim>\<open>result\<close> by \<^verbatim>\<open>set\<close>.
\<close>

fun startActions_loop ::
    "lodash \<Rightarrow> broker \<Rightarrow> node list \<Rightarrow> (string \<times> jsval) list \<Rightarrow>
     broker \<times> (error + (string \<times> jsval) list)" where
  "startActions_loop lo b [] result = (b, Inr result)"
| "startActions_loop lo b (name # names) result =
     (case startActions_step lo b name of
        (b', Inl e) \<Rightarrow> (b', Inl e)
      | (b', Inr (k, v)) \<Rightarrow> startActions_loop lo b' names (lodash_set lo result k v))"

definition startActions ::
    "lodash \<Rightarrow> broker \<Rightarrow> node list \<Rightarrow> broker \<times> (error + (string \<times> jsval) list)" where
  "startActions lo b names = startActions_loop lo b names []"

subsection \<open>startService\<close>

text \<open>
  Lines 193-219.  The service object is the registry's entry, so each assignment to it is
  a write to the registry.  The result pairs the broker after the call with the outcome:
  \<open>Inr ()\<close> when the promise resolves, \<open>Inl e\<close> when it rejects with \<open>e\<close>.
\<close>

definition startService ::
    "sorter \<Rightarrow> lodash \<Rightarrow> broker \<Rightarrow> string \<Rightarrow> broker \<times> (error + unit)" where
  "startService sort' lo b name =
     (case getServiceByName b name of
        Inl e \<Rightarrow> (b, Inl e)
      | Inr service \<Rightarrow>
     (case isServiceRunning b name of
        Inl e \<Rightarrow> (b, Inl e)
      | Inr True \<Rightarrow> (b, Inr ())
      | Inr False \<Rightarrow>
     (let b1 = b\<lparr>services := updEntry name (\<lambda>s. s\<lparr>isRunning := True\<rparr>) (services b)\<rparr>;
          localActionsNames = map (\<lambda>a. name @ ''#'' @ a) (serviceLocalActions service)
      in case sortSingletons sort' (singletons b1) (serviceSingletons service) of
           Inl e \<Rightarrow> (b1, Inl e)
         | Inr ss \<Rightarrow>
     (let b2 = b1\<lparr>services := updEntry name (\<lambda>s. s\<lparr>depSingletons := ss\<rparr>) (services b1)\<rparr>
      in case sortActions sort' (actions b2) (serviceActions service @ localActionsNames) ss of
           Inl e \<Rightarrow> (b2, Inl e)
         | Inr as \<Rightarrow>
     (let b3 = b2\<lparr>services := updEntry name (\<lambda>s. s\<lparr>depActions := as\<rparr>) (services b2)\<rparr>
      in case startSingletons b3 ss of
           (b4, Inl e) \<Rightarrow> (b4, Inl e)
         | (b4, Inr sgls) \<Rightarrow>
     (case startActions lo b4 as of
        (b5, Inl e) \<Rightarrow> (b5, Inl e)
      | (b5, Inr acts) \<Rightarrow>
     (case startActions lo b5 (map Name localActionsNames) of
        (b6, Inl e) \<Rightarrow> (b6, Inl e)
      | (b6, Inr locals) \<Rightarrow>
     (let bag = Obj [(''singletons'', Obj (lodash_pick lo sgls (serviceSingletons service))),
                     (''actions'', Obj (lodash_pick lo acts (serviceActions service))),
                     (''localActions'', Obj locals)];
          b7 = b6\<lparr>trace := trace b6 @ [ServiceStart name bag]\<rparr>
      in case startHandler service bag of
           Some e \<Rightarrow> (b7, Inl e)
         | None \<Rightarrow> (b7, Inr ())))))))))"

subsection \<open>stopService\<close>

text \<open>
  The \<^verbatim>\<open>reduce\<close> of lines 232-236: the resolved singletons of the given services,
  added to a set one by one.
\<close>

fun startedSingletons_reduce :: "broker \<Rightarrow> string list \<Rightarrow> node list \<Rightarrow> error + node list" where
  "startedSingletons_reduce b [] res = Inr res"
| "startedSingletons_reduce b (s # ss) res =
     (case getServiceByName b s of
        Inl e \<Rightarrow> Inl e
      | Inr srv \<Rightarrow>
          startedSingletons_reduce b ss (foldl (\<lambda>r singleton. setAdd singleton r) res (depSingletons srv)))"

text \<open>The loop of lines 239-242.\<close>

fun stopSingletons_loop :: "broker \<Rightarrow> node list \<Rightarrow> broker \<times> (error + unit)" where
  "stopSingletons_loop b [] = (b, Inr ())"
| "stopSingletons_loop b (singleton # rest) =
     (case lookup (singletons b) singleton of
        None \<Rightarrow> (b, Inl TypeError)
      | Some s \<Rightarrow>
          (case singleton of
             ServiceNode \<Rightarrow> (b, Inl TypeError)
           | Name k \<Rightarrow>
               (let b1 = b\<lparr>trace := trace b @ [SingletonStop k]\<rparr>
                in case stop s of
                     Some e \<Rightarrow> (b1, Inl e)
                   | None \<Rightarrow>
                       stopSingletons_loop
                         (b1\<lparr>singletons :=
                               updEntry k (\<lambda>s. s\<lparr>started := False\<rparr>) (singletons b1)\<rparr>)
                         rest)))"

text \<open>Lines 222-245.\<close>

definition stopService :: "broker \<Rightarrow> string \<Rightarrow> broker \<times> (error + unit)" where
  "stopService b name =
     (case isServiceRunning b name of
        Inl e \<Rightarrow> (b, Inl e)
      | Inr False \<Rightarrow> (b, Inr ())
      | Inr True \<Rightarrow>
     (case getServiceByName b name of
        Inl e \<Rightarrow> (b, Inl e)
      | Inr service \<Rightarrow>
     (case (case stopHandler service of
              None \<Rightarrow> (b, None)
            | Some outcome \<Rightarrow> (b\<lparr>trace := trace b @ [ServiceStop name]\<rparr>, outcome)) of
        (b1, Some e) \<Rightarrow> (b1, Inl e)
      | (b1, None) \<Rightarrow>
     (let runningServices = filter (\<lambda>n. n \<noteq> name) (getRunningServices b1)
      in case startedSingletons_reduce b1 runningServices [] of
           Inl e \<Rightarrow> (b1, Inl e)
         | Inr startedSingletons \<Rightarrow>
     (let singletonsToStop =
            filter (\<lambda>s. s \<notin> set startedSingletons) (depSingletons service)
      in case stopSingletons_loop b1 singletonsToStop of
           (b2, Inl e) \<Rightarrow> (b2, Inl e)
         | (b2, Inr u) \<Rightarrow>
             (b2\<lparr>services := updEntry name (\<lambda>s. s\<lparr>isRunning := False\<rparr>) (services b2)\<rparr>,
              Inr ()))))))"

section \<open>Notions used in the statements\<close>

text \<open>
  The message of line 398 and the bag of line 395, named once for the statements below.
\<close>

definition composeError :: "string \<Rightarrow> error" where
  \<open>composeError k = Error (''Action "'' @ k @ ''" did not return function'')\<close>

definition actionBag :: "(string \<times> jsval) list \<Rightarrow> (string \<times> jsval) list \<Rightarrow> jsval" where
  "actionBag acts sgls = Obj [(''actions'', Obj acts), (''singletons'', Obj sgls)]"

text \<open>
  Modelled from the spec: the package lodash is not among the sources.  The spec (section
  4.3) has a value inserted at a dotted, namespaced path if its name contains a separator,
  and a flat bag keyed by name otherwise.  Where a statement needs to know what the library
  does, it assumes \<open>plainLodash\<close>, which speaks of plain names only: word characters,
  not starting with a digit, and none of the three names \<^verbatim>\<open>set\<close> refuses to write.
  For such a name \<^verbatim>\<open>set\<close> is the assignment \<^verbatim>\<open>obj[k] = v\<close>, and
  \<^verbatim>\<open>pick\<close> of such names, none a member of \<^verbatim>\<open>Object.prototype\<close>, is the
  projection \<open>pickKeys\<close>.  What the library does with any other name is left open.
  \<open>keyLodash\<close> is the library that treats every name as a plain one; it serves the
  examples, whose names are all plain.
\<close>

definition wordChar :: "char \<Rightarrow> bool" where
  "wordChar c =
     (c \<in> set ''abcdefghijklmnopqrstuvwxyzABCDEFGHIJKLMNOPQRSTUVWXYZ0123456789_'')"

definition plainKey :: "string \<Rightarrow> bool" where
  "plainKey k =
     (list_all wordChar k \<and> (k = [] \<or> hd k \<notin> set ''0123456789'') \<and>
      k \<notin> set [''__proto__'', ''constructor'', ''prototype''])"

definition pickKeys :: "(string \<times> jsval) list \<Rightarrow> string list \<Rightarrow> (string \<times> jsval) list" where
  "pickKeys obj keys =
     foldl (\<lambda>res k. case map_of obj k of None \<Rightarrow> res | Some v \<Rightarrow> setProp k v res) [] keys"

definition plainLodash :: "lodash \<Rightarrow> bool" where
  "plainLodash lo =
     ((\<forall>obj k v. plainKey k \<longrightarrow> lodash_set lo obj k v = setProp k v obj) \<and>
      (\<forall>obj ks. (\<forall>k \<in> set ks. plainKey k \<and> k \<notin> set objectPrototype) \<longrightarrow>
                lodash_pick lo obj ks = pickKeys obj ks))"

definition keyLodash :: lodash where
  "keyLodash = \<lparr>lodash_set = (\<lambda>obj k v. setProp k v obj), lodash_pick = pickKeys\<rparr>"

text \<open>
  Entries for the examples: a singleton whose start routine returns \<open>v\<close>, an action
  whose compose routine returns \<open>v\<close>, a service whose handlers return; none of them
  started, composed or running.
\<close>

definition exSingleton :: "string list \<Rightarrow> jsval \<Rightarrow> singleton" where
  "exSingleton req v =
     \<lparr>singletonRequires = req, start = (\<lambda>bag. Inr v), stop = None, started = False,
      inst = Undefined\<rparr>"

definition exAction :: "string list \<Rightarrow> string list \<Rightarrow> jsval \<Rightarrow> action" where
  "exAction acts sgls v =
     \<lparr>actionActions = acts, actionSingletons = sgls, actionPlugins = [],
      fn = (\<lambda>bag. Inr v), initializedFn = Undefined\<rparr>"

definition exService :: "string list \<Rightarrow> string list \<Rightarrow> service" where
  "exService sgls acts =
     \<lparr>serviceSingletons = sgls, serviceActions = acts, serviceLocalActions = [],
      localActions = [], startHandler = (\<lambda>bag. None), stopHandler = None,
      isRunning = False, depSingletons = [], depActions = []\<rparr>"

definition exBadCompose :: broker where
  "exBadCompose =
     \<lparr>singletons = [], actions = [(''doIt'', exAction [] [] (Num 5))], plugins = [],
      services = [], trace = []\<rparr>"

text \<open>
  For the statements about \<^verbatim>\<open>stopService\<close>: the events a call added to the trace,
  the singletons whose stop routine a list of events invoked (in order), the resolved
  singletons a service has cached, the resolved singletons of every running service other
  than \<open>name\<close>, and the \<^verbatim>\<open>started\<close> flag of a singleton.
\<close>

definition newEvents :: "broker \<Rightarrow> broker \<Rightarrow> event list" where
  "newEvents b b' = drop (length (trace b)) (trace b')"

definition stopped :: "event list \<Rightarrow> node list" where
  "stopped evs = concat (map (\<lambda>e. case e of SingletonStop k \<Rightarrow> [Name k] | _ \<Rightarrow> []) evs)"

definition resolvedSingletons :: "broker \<Rightarrow> string \<Rightarrow> node list" where
  "resolvedSingletons b n =
     (case map_of (services b) n of None \<Rightarrow> [] | Some srv \<Rightarrow> depSingletons srv)"

definition neededByOthers :: "broker \<Rightarrow> string \<Rightarrow> node list" where
  "neededByOthers b name =
     concat (map (resolvedSingletons b) (filter (\<lambda>n. n \<noteq> name) (getRunningServices b)))"

definition isStarted :: "broker \<Rightarrow> string \<Rightarrow> bool" where
  "isStarted b k = (case map_of (singletons b) k of None \<Rightarrow> False | Some s \<Rightarrow> started s)"

text \<open>
  Two services that share \<open>s1\<close>, both running; the same broker after \<open>A\<close> was
  stopped; and a broker where \<open>A\<close> runs alone.
\<close>

definition exRunning :: broker where
  "exRunning =
     \<lparr>singletons =
        [(''s1'', (exSingleton [] (Num 1))\<lparr>started := True, inst := Num 1\<rparr>),
         (''s2'', (exSingleton [''s1''] (Num 2))\<lparr>started := True, inst := Num 2\<rparr>)],
      actions = [], plugins = [],
      services =
        [(''A'', (exService [''s2''] [])\<lparr>isRunning := True,
                   depSingletons := [Name ''s1'', Name ''s2'']\<rparr>),
         (''B'', (exService [''s1''] [])\<lparr>isRunning := True, depSingletons := [Name ''s1'']\<rparr>)],
      trace = []\<rparr>"


definition exSolo :: broker where
  "exSolo =
     \<lparr>singletons =
        [(''s1'', (exSingleton [] (Num 1))\<lparr>started := True, inst := Num 1\<rparr>),
         (''s2'', (exSingleton [''s1''] (Num 2))\<lparr>started := True, inst := Num 2\<rparr>)],
      actions = [], plugins = [],
      services =
        [(''A'', (exService [''s2''] [])\<lparr>isRunning := True,
                   depSingletons := [Name ''s1'', Name ''s2'']\<rparr>)],
      trace = []\<rparr>"

text \<open>
  For the statements about resolution: the dependency relation of a registry (\<open>a\<close>
  requires \<open>b\<close>), the names reachable from the requested ones, a registry that has an
  entry for every reachable name, and one where no reachable name lies on a cycle.
\<close>

definition depRel :: "('a \<Rightarrow> string list) \<Rightarrow> (string \<times> 'a) list \<Rightarrow> (string \<times> string) set" where
  "depRel req reg = {(a, b). \<exists>e. map_of reg a = Some e \<and> b \<in> set (req e)}"

definition reachable :: "('a \<Rightarrow> string list) \<Rightarrow> (string \<times> 'a) list \<Rightarrow> string list \<Rightarrow> string set" where
  "reachable req reg roots = (depRel req reg)\<^sup>* `` set roots"

definition closedFrom :: "('a \<Rightarrow> string list) \<Rightarrow> (string \<times> 'a) list \<Rightarrow> string list \<Rightarrow> bool" where
  "closedFrom req reg roots = (\<forall>n \<in> reachable req reg roots. map_of reg n \<noteq> None)"

definition acyclicFrom :: "('a \<Rightarrow> string list) \<Rightarrow> (string \<times> 'a) list \<Rightarrow> string list \<Rightarrow> bool" where
  "acyclicFrom req reg roots = (\<forall>n \<in> reachable req reg roots. (n, n) \<notin> (depRel req reg)\<^sup>+)"

text \<open>
  The error of lines 309 and 370, and the shape of the chain it prints: a path of the
  dependency relation that starts at a requested name and has no repetition up to
  its last but one name, which repeats an earlier one; the last name is the first
  requirement of the repeated name, the one the \<^verbatim>\<open>forEach\<close> was at when the
  repetition was noticed.
\<close>

definition cycleMessage :: "string \<Rightarrow> string list \<Rightarrow> error" where
  "cycleMessage kind chain =
     Error (''Found '' @ kind @ '' circular dependency: '' @ join '' -> '' chain)"

definition cycleChain ::
    "('a \<Rightarrow> string list) \<Rightarrow> (string \<times> 'a) list \<Rightarrow> string list \<Rightarrow> string list \<Rightarrow> bool" where
  "cycleChain req reg roots chain =
     (3 \<le> length chain \<and> hd chain \<in> set roots \<and>
      successively (\<lambda>a b. (a, b) \<in> depRel req reg) chain \<and>
      distinct (butlast (butlast chain)) \<and>
      last (butlast chain) \<in> set (butlast (butlast chain)) \<and>
      (case map_of reg (last (butlast chain)) of
         None \<Rightarrow> False
       | Some entry \<Rightarrow> req entry \<noteq> [] \<and> last chain = hd (req entry)))"

text \<open>
  The position of the first occurrence of \<open>x\<close> in a list (its length when \<open>x\<close> is
  absent), and what is required of the imported sort: on an acyclic edge list it returns
  every node of the edges once, the source of each edge before its target.
\<close>

definition indexOf :: "'a \<Rightarrow> 'a list \<Rightarrow> nat" where
  "indexOf x xs = length (takeWhile (\<lambda>y. y \<noteq> x) xs)"

definition topological :: "('a \<times> 'a) list \<Rightarrow> 'a list \<Rightarrow> bool" where
  "topological edges out =
     (distinct out \<and> set out = fst ` set edges \<union> snd ` set edges \<and>
      (\<forall>e \<in> set edges. indexOf (fst e) out < indexOf (snd e) out))"

definition sorts :: "sorter \<Rightarrow> bool" where
  "sorts sort' =
     (\<forall>edges. acyclic (set edges) \<longrightarrow> (\<exists>out. sort' edges = Inr out \<and> topological edges out))"

text \<open>
  The invariant of the depth-first sort, for the path \<open>predecessors\<close> being explored
  and the state (visited nodes, result so far): a node is visited when it is finished or
  on the path, and every finished node stands before all its targets, which are finished.
\<close>

definition dfsInv :: "('a \<times> 'a) list \<Rightarrow> 'a list \<Rightarrow> 'a list \<Rightarrow> 'a list \<times> 'a list \<Rightarrow> bool" where
  "dfsInv edges nodes predecessors st =
     (set (fst st) = set (snd st) \<union> set predecessors \<and> distinct (snd st) \<and>
      set (snd st) \<inter> set predecessors = {} \<and> set (snd st) \<subseteq> set nodes \<and>
      (\<forall>a \<in> set (snd st). \<forall>b. (a, b) \<in> set edges \<longrightarrow>
          b \<in> set (snd st) \<and> indexOf a (snd st) < indexOf b (snd st)))"

text \<open>
  The edge list that \<^verbatim>\<open>sortSingletons\<close> and \<^verbatim>\<open>sortActions\<close> build: one edge
  from the service node to each requested name, then the requirements of every collected
  name.  \<open>resolved\<close> is what resolution promises of its result: no repetition, no service
  node, exactly the reachable names, and every name after all names it depends on.
\<close>

definition rootEdges :: "string list \<Rightarrow> graph" where
  "rootEdges roots = map (\<lambda>i. (ServiceNode, Name i)) roots"

definition edgesOf :: "('a \<Rightarrow> string list) \<Rightarrow> (string \<times> 'a) list \<Rightarrow> string list \<Rightarrow> graph" where
  "edgesOf req reg names =
     concat (map (\<lambda>name. case map_of reg name of
                            None \<Rightarrow> []
                          | Some e \<Rightarrow> map (\<lambda>n. (Name name, Name n)) (req e)) names)"

definition resolved ::
    "('a \<Rightarrow> string list) \<Rightarrow> (string \<times> 'a) list \<Rightarrow> string list \<Rightarrow> node list \<Rightarrow> bool" where
  "resolved req reg roots out =
     (distinct out \<and> ServiceNode \<notin> set out \<and> set out = Name ` reachable req reg roots \<and>
      (\<forall>a b. Name a \<in> set out \<and> (a, b) \<in> (depRel req reg)\<^sup>+ \<longrightarrow>
         Name b \<in> set out \<and> indexOf (Name b) out < indexOf (Name a) out))"

text \<open>
  The error of lines 353-356, and an action that declares a singleton which is not among
  the resolved ones.
\<close>

definition notIncludedError :: "string \<Rightarrow> string list \<Rightarrow> error" where
  \<open>notIncludedError name notIncluded =
     Error (''Action "'' @ name @ ''" requires not included singleton(s): "'' @
            join ''", "'' notIncluded @ ''". Please add them to service definition'')\<close>

definition lacking :: "(string \<times> action) list \<Rightarrow> node list \<Rightarrow> string \<Rightarrow> bool" where
  "lacking acts sgls name =
     (case map_of acts name of
        None \<Rightarrow> False
      | Some a \<Rightarrow> difference (actionSingletons a) sgls \<noteq> [])"

text \<open>\<^verbatim>\<open>service.getRequiredLocalActions().map(a => `${name}#${a}`)\<close>, line 201.\<close>

definition localActionsNames :: "string \<Rightarrow> service \<Rightarrow> string list" where
  "localActionsNames name service = map (\<lambda>a. name @ ''#'' @ a) (serviceLocalActions service)"



text \<open>
  Registries for the examples: a diamond of singletons, three singletons on a cycle, two
  actions of which one needs a singleton, a broker whose only service requires a singleton
  of the cycle, and an action that names an action and a plugin nobody registered.
\<close>

definition exDag :: "(string \<times> singleton) list" where
  "exDag =
     [(''a'', exSingleton [''b'', ''c''] (Num 1)), (''b'', exSingleton [''d''] (Num 2)),
      (''c'', exSingleton [''d''] (Num 3)), (''d'', exSingleton [] (Num 4))]"

definition exCycle :: "(string \<times> singleton) list" where
  "exCycle =
     [(''A'', exSingleton [''B''] (Num 1)), (''B'', exSingleton [''C''] (Num 2)),
      (''C'', exSingleton [''A''] (Num 3))]"

definition exFork :: "(string \<times> singleton) list" where
  "exFork =
     [(''A'', exSingleton [''B'', ''D''] (Num 1)), (''B'', exSingleton [''A''] (Num 2)),
      (''D'', exSingleton [] (Num 3))]"

definition exActions :: "(string \<times> action) list" where
  "exActions =
     [(''doIt'', exAction [] [''d''] (Fn 1)), (''doThat'', exAction [''doIt''] [] (Fn 2))]"

definition exCyclicBroker :: broker where
  "exCyclicBroker =
     \<lparr>singletons = exCycle, actions = [], plugins = [],
      services = [(''svc'', exService [''A''] [])], trace = []\<rparr>"

definition exCyclicActions :: broker where
  "exCyclicActions =
     \<lparr>singletons = [], actions = [(''X'', exAction [''Y''] [] (Fn 1)), (''Y'', exAction [''X''] [] (Fn 2))],
      plugins = [], services = [(''svc'', exService [] [''X''])], trace = []\<rparr>"


text \<open>
  For the statements about the lifetime of a singleton.  A caller issues calls one after
  the other, each awaited until it resolves or rejects; \<open>run\<close> is the broker after
  such a sequence.  \<open>pending k\<close> counts the invocations of the start routine of
  \<open>k\<close> since the last invocation of its stop routine, and \<open>atMostOnce k\<close> says
  that count never exceeds one, at any point of the trace.  \<open>startedOnce\<close> adds what
  the \<^verbatim>\<open>started\<close> flag means: a singleton that is not flagged has no invocation
  pending.  \<open>instOf\<close> is the \<^verbatim>\<open>instance\<close> stored in the registry, and
  \<open>keeps k b b'\<close> says that a singleton started in \<open>b\<close> is still started in
  \<open>b'\<close>, with the same instance and without a new invocation in between.  An event is
  neutral for \<open>k\<close> when it neither starts nor stops \<open>k\<close>; \<open>singletonBag\<close> is
  the bag of line 329.
\<close>

datatype call = StartService string | StopService string

fun run :: "sorter \<Rightarrow> lodash \<Rightarrow> broker \<Rightarrow> call list \<Rightarrow> broker" where
  "run sort' lo b [] = b"
| "run sort' lo b (StartService name # calls) =
     run sort' lo (fst (startService sort' lo b name)) calls"
| "run sort' lo b (StopService name # calls) = run sort' lo (fst (stopService b name)) calls"

definition pendingStep :: "string \<Rightarrow> nat \<Rightarrow> event \<Rightarrow> nat" where
  "pendingStep k n e =
     (case e of
        SingletonStart k' bag \<Rightarrow> if k' = k then Suc n else n
      | SingletonStop k' \<Rightarrow> if k' = k then 0 else n
      | ActionCompose a bag \<Rightarrow> n
      | ServiceStart s bag \<Rightarrow> n
      | ServiceStop s \<Rightarrow> n)"

definition pending :: "string \<Rightarrow> event list \<Rightarrow> nat" where
  "pending k evs = foldl (pendingStep k) 0 evs"

definition atMostOnce :: "string \<Rightarrow> event list \<Rightarrow> bool" where
  "atMostOnce k evs = (\<forall>n \<le> length evs. pending k (take n evs) \<le> 1)"

definition instOf :: "broker \<Rightarrow> string \<Rightarrow> jsval" where
  "instOf b k = (case map_of (singletons b) k of None \<Rightarrow> Undefined | Some s \<Rightarrow> inst s)"

definition startedOnce :: "string \<Rightarrow> broker \<Rightarrow> bool" where
  "startedOnce k b =
     (atMostOnce k (trace b) \<and> (\<not> isStarted b k \<longrightarrow> pending k (trace b) = 0))"

definition keeps :: "string \<Rightarrow> broker \<Rightarrow> broker \<Rightarrow> bool" where
  "keeps k b b' =
     (isStarted b k \<longrightarrow>
        isStarted b' k \<and> instOf b' k = instOf b k \<and>
        (\<exists>evs. trace b' = trace b @ evs \<and> (\<forall>bag. SingletonStart k bag \<notin> set evs)))"

definition singletonBag :: "(string \<times> jsval) list \<Rightarrow> jsval" where
  "singletonBag deps = Obj [(''singletons'', Obj deps)]"

definition neutral :: "string \<Rightarrow> event \<Rightarrow> bool" where
  "neutral k e = ((\<forall>bag. e \<noteq> SingletonStart k bag) \<and> e \<noteq> SingletonStop k)"

text \<open>The broker the constructor returns for two services that share \<open>s1\<close>.\<close>

definition exFresh :: broker where
  "exFresh =
     \<lparr>singletons = [(''s1'', exSingleton [] (Num 1)), (''s2'', exSingleton [''s1''] (Num 2))],
      actions = [], plugins = [],
      services = [(''A'', exService [''s2''] []), (''B'', exService [''s1''] [])],
      trace = []\<rparr>"

text \<open>
  The same broker while \<^verbatim>\<open>startService\<close> of \<open>A\<close> is under way: after the
  dependencies were resolved and stored (\<open>exResolved\<close>), and then while the call waits
  for the start routine of \<open>s1\<close> (\<open>exPending\<close>).
\<close>

definition exResolved :: broker where
  "exResolved =
     exFresh\<lparr>services :=
       [(''A'', (exService [''s2''] [])\<lparr>isRunning := True,
                  depSingletons := [Name ''s1'', Name ''s2'']\<rparr>),
        (''B'', exService [''s1''] [])]\<rparr>"

definition exPending :: broker where
  "exPending = startSingletons_await exResolved ''s1'' (singletonBag [])"

section \<open>Registry updates\<close>

lemma map_of_updEntry:
  "map_of (updEntry k f reg) k' = (if k' = k then map_option f (map_of reg k) else map_of reg k')"
  by (induction reg) (auto simp: updEntry_def)


section \<open>Composition of actions\<close>

text \<open>The turns of the loop of \<^verbatim>\<open>startActions\<close>, one case per path through its body.\<close>

lemma startActions_step_cases:
  assumes "startActions_step lo b n = (b', r)"
  obtains
    (symbol) "n = ServiceNode" "b' = b" "r = Inl TypeError"
  | (missing) k where "n = Name k" "map_of (actions b) k = None" "b' = b" "r = Inl TypeError"
  | (cached) k a where "n = Name k" "map_of (actions b) k = Some a" "truthy (initializedFn a)"
      "b' = b" "r = Inr (realName k, initializedFn a)"
  | (noActs) k a e where "n = Name k" "map_of (actions b) k = Some a" "\<not> truthy (initializedFn a)"
      "initializedFnsOf lo (actions b) (actionActions a) [] = Inl e" "b' = b" "r = Inl e"
  | (noSgls) k a acts e where "n = Name k" "map_of (actions b) k = Some a" "\<not> truthy (initializedFn a)"
      "initializedFnsOf lo (actions b) (actionActions a) [] = Inr acts"
      "instancesAt lo (singletons b) (actionSingletons a) [] = Inl e" "b' = b" "r = Inl e"
  | (threw) k a acts sgls e where "n = Name k" "map_of (actions b) k = Some a" "\<not> truthy (initializedFn a)"
      "initializedFnsOf lo (actions b) (actionActions a) [] = Inr acts"
      "instancesAt lo (singletons b) (actionSingletons a) [] = Inr sgls"
      "fn a (actionBag acts sgls) = Inl e"
      "b' = b\<lparr>trace := trace b @ [ActionCompose k (actionBag acts sgls)]\<rparr>"
      "r = Inl e"
  | (composed) k a acts sgls v where "n = Name k" "map_of (actions b) k = Some a" "\<not> truthy (initializedFn a)"
      "initializedFnsOf lo (actions b) (actionActions a) [] = Inr acts"
      "instancesAt lo (singletons b) (actionSingletons a) [] = Inr sgls"
      "fn a (actionBag acts sgls) = Inr v"
      "b' = b\<lparr>trace := trace b @ [ActionCompose k (actionBag acts sgls)],
              actions := updEntry k (\<lambda>a. a\<lparr>initializedFn := v\<rparr>) (actions b)\<rparr>"
      "r = (if isFunction v then Inr (realName k, v) else Inl (composeError k))"
proof (cases n)
  case ServiceNode
  with assms have "b' = b" "r = Inl TypeError"
    unfolding startActions_step_def by simp_all
  with ServiceNode show ?thesis using that(1) by blast
next
  case (Name k)
  note n = this
  show ?thesis
  proof (cases "map_of (actions b) k")
    case None
    with assms n have "b' = b" "r = Inl TypeError"
      unfolding startActions_step_def by simp_all
    with n None show ?thesis using that(2) by blast
  next
    case (Some a)
    note a = this
    show ?thesis
    proof (cases "truthy (initializedFn a)")
      case True
      with assms n a have "b' = b" "r = Inr (realName k, initializedFn a)"
        unfolding startActions_step_def by simp_all
      with n a True show ?thesis using that(3) by blast
    next
      case False
      note f = this
      show ?thesis
      proof (cases "initializedFnsOf lo (actions b) (actionActions a) []")
        case (Inl e)
        with assms n a f have "b' = b" "r = Inl e"
          unfolding startActions_step_def by simp_all
        with n a f Inl show ?thesis using that(4) by blast
      next
        case (Inr acts)
        note acts = this
        show ?thesis
        proof (cases "instancesAt lo (singletons b) (actionSingletons a) []")
          case (Inl e)
          with assms n a f acts have "b' = b" "r = Inl e"
            unfolding startActions_step_def by simp_all
          with n a f acts Inl show ?thesis using that(5) by blast
        next
          case (Inr sgls)
          note sgls = this
          show ?thesis
          proof (cases "fn a (actionBag acts sgls)")
            case (Inl e)
            with assms n a f acts sgls
            have "b' = b\<lparr>trace := trace b @ [ActionCompose k (actionBag acts sgls)]\<rparr>" "r = Inl e"
              unfolding startActions_step_def actionBag_def by (simp_all add: Let_def)
            with n a f acts sgls Inl show ?thesis using that(6) by blast
          next
            case (Inr v)
            with assms n a f acts sgls
            have "b' = b\<lparr>trace := trace b @ [ActionCompose k (actionBag acts sgls)],
              actions := updEntry k (\<lambda>a. a\<lparr>initializedFn := v\<rparr>) (actions b)\<rparr>"
              "r = (if isFunction v then Inr (realName k, v) else Inl (composeError k))"
              unfolding startActions_step_def actionBag_def composeError_def
              by (simp_all add: Let_def split: if_splits)
            with n a f acts sgls Inr show ?thesis using that(7) by blast
          qed
        qed
      qed
    qed
  qed
qed


lemma startActions_step_fn:
  assumes "startActions_step lo b n = (b', r)"
  shows "map_option fn (map_of (actions b') k) = map_option fn (map_of (actions b) k)"
  using assms
  by (cases rule: startActions_step_cases) (auto simp: map_of_updEntry option.map_comp comp_def)

lemma startActions_step_trace:
  assumes "startActions_step lo b n = (b', r)"
  shows "\<exists>evs. trace b' = trace b @ evs"
  using assms by (cases rule: startActions_step_cases) auto

lemma startActions_loop_trace:
  "startActions_loop lo b names result = (b', r) \<Longrightarrow> \<exists>evs. trace b' = trace b @ evs"
proof (induction names arbitrary: b result)
  case Nil
  then show ?case by simp
next
  case (Cons n names)
  obtain b1 r1 where step: "startActions_step lo b n = (b1, r1)" by (cases "startActions_step lo b n")
  from startActions_step_trace[OF step] obtain evs where evs: "trace b1 = trace b @ evs" ..
  show ?case
  proof (cases r1)
    case (Inl e)
    with Cons.prems step evs show ?thesis by auto
  next
    case (Inr kv)
    with Cons.prems step have "startActions_loop lo b1 names (lodash_set lo result (fst kv) (snd kv)) = (b', r)"
      by (simp add: case_prod_beta)
    from Cons.IH[OF this] evs show ?thesis by auto
  qed
qed

lemma startActions_step_nonfunction:
  assumes step: "startActions_step lo b n = (b', r)"
    and ev: "ActionCompose k bag \<in> set (drop (length (trace b)) (trace b'))"
    and a: "map_of (actions b) k = Some a"
    and v: "fn a bag = Inr v" "\<not> isFunction v"
  shows "r = Inl (composeError k)"
  using step ev a v
  by (cases rule: startActions_step_cases) auto

lemma startActions_loop_nonfunction:
  assumes "startActions_loop lo b names result = (b', r)"
    and "ActionCompose k bag \<in> set (drop (length (trace b)) (trace b'))"
    and "map_of (actions b) k = Some a"
    and "fn a bag = Inr v" "\<not> isFunction v"
  shows "r = Inl (composeError k)"
  using assms
proof (induction names arbitrary: b result a)
  case Nil
  then show ?case by simp
next
  case (Cons n names)
  obtain b1 r1 where step: "startActions_step lo b n = (b1, r1)" by (cases "startActions_step lo b n")
  from startActions_step_trace[OF step] obtain evs where evs: "trace b1 = trace b @ evs" ..
  show ?case
  proof (cases r1)
    case (Inl e)
    with Cons.prems(1) step have b': "b' = b1" and r: "r = Inl e" by auto
    from startActions_step_nonfunction[OF step _ Cons.prems(3,4,5)] Cons.prems(2) b' Inl
    have "e = composeError k" by simp
    with r show ?thesis by simp
  next
    case (Inr kv)
    with Cons.prems(1) step have loop: "startActions_loop lo b1 names (lodash_set lo result (fst kv) (snd kv)) = (b', r)"
      by (simp add: case_prod_beta)
    from startActions_loop_trace[OF loop] obtain evs' where evs': "trace b' = trace b1 @ evs'" ..
    have notin: "ActionCompose k bag \<notin> set evs"
    proof
      assume "ActionCompose k bag \<in> set evs"
      with evs have "ActionCompose k bag \<in> set (drop (length (trace b)) (trace b1))" by simp
      from startActions_step_nonfunction[OF step this Cons.prems(3,4,5)] Inr show False by simp
    qed
    with Cons.prems(2) evs evs' have in': "ActionCompose k bag \<in> set (drop (length (trace b1)) (trace b'))"
      by simp
    from startActions_step_fn[OF step, of k] Cons.prems(3)
    obtain a1 where a1: "map_of (actions b1) k = Some a1" "fn a1 = fn a" by auto
    with Cons.prems(4) have "fn a1 bag = Inr v" by simp
    from Cons.IH[OF loop in' a1(1) this Cons.prems(5)] show ?thesis .
  qed
qed

text \<open>
  C8.  When \<^verbatim>\<open>startActions\<close> invokes the compose routine of an action and the routine
  returns a value that is not a function, the call fails with the error
  \<^verbatim>\<open>Action "<name>" did not return function\<close>, whose message names that action.
  The invocation is read off the trace: the call from \<open>b\<close> to \<open>b'\<close> logged
  \<open>ActionCompose k bag\<close>, and the routine of \<open>k\<close> returns \<open>v\<close> on that bag.
\<close>

theorem C8_compose_must_return_function:
  assumes "startActions lo b names = (b', r)"
    and "map_of (actions b) k = Some a"
    and "ActionCompose k bag \<in> set (drop (length (trace b)) (trace b'))"
    and "fn a bag = Inr v" and "\<not> isFunction v"
  shows \<open>r = Inl (Error (''Action "'' @ k @ ''" did not return function''))\<close>
  using startActions_loop_nonfunction[of lo b names "[]" b' r k bag a v] assms
  by (simp add: startActions_def composeError_def)


lemma exBadCompose_step:
  "startActions_step keyLodash exBadCompose (Name ''doIt'') =
     (exBadCompose\<lparr>trace := [ActionCompose ''doIt'' (actionBag [] [])],
        actions := [(''doIt'', (exAction [] [] (Num 5))\<lparr>initializedFn := Num 5\<rparr>)]\<rparr>,
      Inl (composeError ''doIt''))"
  by (simp add: startActions_step_def exBadCompose_def exAction_def actionBag_def
      composeError_def updEntry_def Let_def)

theorem C8_compose_must_return_function_witness:
  \<open>snd (startActions keyLodash exBadCompose [Name ''doIt'']) =
     Inl (Error (''Action "'' @ ''doIt'' @ ''" did not return function''))\<close>
proof -
  have run: "startActions keyLodash exBadCompose [Name ''doIt''] =
      (exBadCompose\<lparr>trace := [ActionCompose ''doIt'' (actionBag [] [])],
        actions := [(''doIt'', (exAction [] [] (Num 5))\<lparr>initializedFn := Num 5\<rparr>)]\<rparr>,
       Inl (composeError ''doIt''))"
    by (simp add: startActions_def exBadCompose_step)
  have a: "map_of (actions exBadCompose) ''doIt'' = Some (exAction [] [] (Num 5))"
    by (simp add: exBadCompose_def)
  have ev: "ActionCompose ''doIt'' (actionBag [] []) \<in>
      set (drop (length (trace exBadCompose))
        (trace (exBadCompose\<lparr>trace := [ActionCompose ''doIt'' (actionBag [] [])],
        actions := [(''doIt'', (exAction [] [] (Num 5))\<lparr>initializedFn := Num 5\<rparr>)]\<rparr>)))"
    by (simp add: exBadCompose_def)
  have v: "fn (exAction [] [] (Num 5)) (actionBag [] []) = Inr (Num 5)" "\<not> isFunction (Num 5)"
    by (simp_all add: exAction_def)
  from C8_compose_must_return_function[OF run a ev v] show ?thesis by (simp add: run)
qed

text \<open>
  C10.  If the compose routine of an action not yet composed returns a truthy value that
  is not a function, the call of \<^verbatim>\<open>startActions\<close> fails with the error of line 398,
  but the value is already stored in \<^verbatim>\<open>initializedFn\<close>; a later call for the same
  action finds it truthy, skips both the routine and the check, and its turn of the loop
  yields the value that is not callable without any error: \<^verbatim>\<open>set\<close> puts it into
  the result at the path the name of the action spells, which for a plain name is the key
  of that name, whatever else the call includes.
\<close>

theorem C10_nonfunction_value_cached:
  assumes "map_of (actions b) k = Some a"
    and "\<not> truthy (initializedFn a)"
    and "initializedFnsOf lo (actions b) (actionActions a) [] = Inr acts"
    and "instancesAt lo (singletons b) (actionSingletons a) [] = Inr sgls"
    and "fn a (actionBag acts sgls) = Inr v"
    and "truthy v" and "\<not> isFunction v"
    and "startActions lo b [Name k] = (b', r)"
  shows "r = Inl (composeError k) \<and>
         map_option initializedFn (map_of (actions b') k) = Some v \<and>
         startActions_step lo b' (Name k) = (b', Inr (realName k, v)) \<and>
         startActions lo b' [Name k] = (b', Inr (lodash_set lo [] (realName k) v)) \<and>
         (plainLodash lo \<and> plainKey (realName k) \<longrightarrow>
            startActions lo b' [Name k] = (b', Inr [(realName k, v)]) \<and>
            (\<forall>names result. startActions_loop lo b' (Name k # names) result =
               startActions_loop lo b' names (setProp (realName k) v result)))"
proof -
  have step: "startActions_step lo b (Name k) =
      (b\<lparr>trace := trace b @ [ActionCompose k (actionBag acts sgls)],
         actions := updEntry k (\<lambda>a. a\<lparr>initializedFn := v\<rparr>) (actions b)\<rparr>,
       Inl (composeError k))"
    using assms(1-5,7)
    by (simp add: startActions_step_def actionBag_def composeError_def Let_def)
  with assms(8) have b': "b' = b\<lparr>trace := trace b @ [ActionCompose k (actionBag acts sgls)],
         actions := updEntry k (\<lambda>a. a\<lparr>initializedFn := v\<rparr>) (actions b)\<rparr>"
    and r: "r = Inl (composeError k)"
    by (simp_all add: startActions_def)
  from b' assms(1) have cached: "map_of (actions b') k = Some (a\<lparr>initializedFn := v\<rparr>)"
    by (simp add: map_of_updEntry)
  with assms(6) have step': "startActions_step lo b' (Name k) = (b', Inr (realName k, v))"
    by (simp add: startActions_step_def)
  then have again: "startActions lo b' [Name k] = (b', Inr (lodash_set lo [] (realName k) v))"
    by (simp add: startActions_def)
  have "plainLodash lo \<and> plainKey (realName k) \<longrightarrow>
      startActions lo b' [Name k] = (b', Inr [(realName k, v)]) \<and>
      (\<forall>names result. startActions_loop lo b' (Name k # names) result =
         startActions_loop lo b' names (setProp (realName k) v result))"
    using again step' by (simp add: plainLodash_def)
  with r cached step' again show ?thesis by simp
qed

lemma plainLodash_keyLodash: "plainLodash keyLodash"
  by (simp add: plainLodash_def keyLodash_def)

theorem C10_nonfunction_value_cached_witness:
  "snd (startActions keyLodash exBadCompose [Name ''doIt'']) = Inl (composeError ''doIt'') \<and>
   snd (startActions keyLodash (fst (startActions keyLodash exBadCompose [Name ''doIt'']))
          [Name ''doIt'']) =
     Inr [(''doIt'', Num 5)]"
proof -
  have a: "map_of (actions exBadCompose) ''doIt'' = Some (exAction [] [] (Num 5))"
    by (simp add: exBadCompose_def)
  have h: "\<not> truthy (initializedFn (exAction [] [] (Num 5)))"
    "initializedFnsOf keyLodash (actions exBadCompose) (actionActions (exAction [] [] (Num 5))) [] =
       Inr []"
    "instancesAt keyLodash (singletons exBadCompose) (actionSingletons (exAction [] [] (Num 5))) [] =
       Inr []"
    "fn (exAction [] [] (Num 5)) (actionBag [] []) = Inr (Num 5)"
    "truthy (Num 5)" "\<not> isFunction (Num 5)"
    by (simp_all add: exAction_def)
  have p: "startActions keyLodash exBadCompose [Name ''doIt''] =
      (fst (startActions keyLodash exBadCompose [Name ''doIt'']),
       snd (startActions keyLodash exBadCompose [Name ''doIt'']))"
    by simp
  have plain: "plainLodash keyLodash \<and> plainKey (realName ''doIt'')"
    by (simp add: plainLodash_keyLodash plainKey_def wordChar_def realName_def)
  note c10 = C10_nonfunction_value_cached[OF a h p]
  from c10[THEN conjunct1]
    c10[THEN conjunct2, THEN conjunct2, THEN conjunct2, THEN conjunct2, rule_format, OF plain,
      THEN conjunct1]
  show ?thesis by (simp add: realName_def)
qed

section \<open>Stopping a service\<close>

lemma set_foldl_setAdd: "set (foldl (\<lambda>r x. setAdd x r) res xs) = set res \<union> set xs"
  by (induction xs arbitrary: res) (auto simp: setAdd_def)

lemma startedSingletons_reduce_ok:
  assumes "\<forall>n\<in>set names. map_of (services b) n \<noteq> None"
  shows "\<exists>r. startedSingletons_reduce b names res = Inr r \<and>
           set r = set res \<union> set (concat (map (resolvedSingletons b) names))"
  using assms
proof (induction names arbitrary: res)
  case Nil
  then show ?case by simp
next
  case (Cons n names)
  then obtain srv where srv: "map_of (services b) n = Some srv" by auto
  from Cons.prems have "\<forall>n\<in>set names. map_of (services b) n \<noteq> None" by simp
  from Cons.IH[OF this, of "foldl (\<lambda>r singleton. setAdd singleton r) res (depSingletons srv)"]
  show ?case using srv
    by (auto simp: getServiceByName_def resolvedSingletons_def set_foldl_setAdd)
qed

lemma getRunningServices_found:
  "n \<in> set (getRunningServices b) \<Longrightarrow> map_of (services b) n \<noteq> None"
  by (auto simp: getRunningServices_def isServiceRunning_def getServiceByName_def
      split: option.splits)

lemma stopSingletons_loop_ok:
  assumes "stopSingletons_loop b names = (b', Inr u)"
  shows "\<exists>ks. names = map Name ks \<and> trace b' = trace b @ map SingletonStop ks \<and>
           services b' = services b \<and>
           (\<forall>k. isStarted b' k = (isStarted b k \<and> k \<notin> set ks))"
  using assms
proof (induction names arbitrary: b)
  case Nil
  then show ?case by simp
next
  case (Cons n names)
  from Cons.prems obtain k where n: "n = Name k"
    by (cases n) (auto simp: lookup_def)
  with Cons.prems obtain s where s: "map_of (singletons b) k = Some s"
    by (cases "map_of (singletons b) k") (auto simp: lookup_def)
  with Cons.prems n have st: "stop s = None"
    by (cases "stop s") (auto simp: lookup_def Let_def)
  define b1 where "b1 = b\<lparr>trace := trace b @ [SingletonStop k],
      singletons := updEntry k (\<lambda>s. s\<lparr>started := False\<rparr>) (singletons b)\<rparr>"
  from Cons.prems n s st have "stopSingletons_loop b1 names = (b', Inr u)"
    by (simp add: lookup_def Let_def b1_def)
  from Cons.IH[OF this] obtain ks where ks: "names = map Name ks"
    "trace b' = trace b1 @ map SingletonStop ks" "services b' = services b1"
    "\<forall>k. isStarted b' k = (isStarted b1 k \<and> k \<notin> set ks)" by blast
  have "\<forall>k'. isStarted b1 k' = (isStarted b k' \<and> k' \<noteq> k)"
    using s by (auto simp: isStarted_def b1_def map_of_updEntry split: option.splits)
  with ks n show ?case
    by (intro exI[of _ "k # ks"]) (auto simp: b1_def)
qed

lemma stopService_ok:
  assumes "stopService b name = (b', Inr ())" and "isServiceRunning b name = Inr True"
  obtains service ks where "map_of (services b) name = Some service"
    and "map Name ks = filter (\<lambda>s. s \<notin> set (neededByOthers b name)) (depSingletons service)"
    and "trace b' = trace b @ (case stopHandler service of None \<Rightarrow> [] | Some x \<Rightarrow> [ServiceStop name])
           @ map SingletonStop ks"
    and "services b' = updEntry name (\<lambda>s. s\<lparr>isRunning := False\<rparr>) (services b)"
    and "\<forall>k. isStarted b' k = (isStarted b k \<and> k \<notin> set ks)"
proof -
  from assms(2) obtain service where service: "map_of (services b) name = Some service"
    by (auto simp: isServiceRunning_def getServiceByName_def split: option.splits)
  then have get: "getServiceByName b name = Inr service" by (simp add: getServiceByName_def)
  define b1 where "b1 = (case stopHandler service of None \<Rightarrow> b
      | Some x \<Rightarrow> b\<lparr>trace := trace b @ [ServiceStop name]\<rparr>)"
  have b1: "services b1 = services b" "singletons b1 = singletons b"
    "trace b1 = trace b @ (case stopHandler service of None \<Rightarrow> [] | Some x \<Rightarrow> [ServiceStop name])"
    by (simp_all add: b1_def split: option.splits)
  have handler: "(case stopHandler service of None \<Rightarrow> (b, None)
        | Some outcome \<Rightarrow> (b\<lparr>trace := trace b @ [ServiceStop name]\<rparr>, outcome)) =
      (b1, case stopHandler service of None \<Rightarrow> None | Some outcome \<Rightarrow> outcome)"
    by (simp add: b1_def split: option.splits)
  have run: "getRunningServices b1 = getRunningServices b"
    by (simp add: getRunningServices_def isServiceRunning_def getServiceByName_def b1)
  have res: "resolvedSingletons b1 = resolvedSingletons b"
    by (simp add: resolvedSingletons_def fun_eq_iff b1)
  have "\<forall>n\<in>set (filter (\<lambda>n. n \<noteq> name) (getRunningServices b1)). map_of (services b1) n \<noteq> None"
    using getRunningServices_found by auto
  from startedSingletons_reduce_ok[OF this, of "[]"] obtain r where
    r: "startedSingletons_reduce b1 (filter (\<lambda>n. n \<noteq> name) (getRunningServices b1)) [] = Inr r"
      "set r = set (neededByOthers b name)"
    by (auto simp: neededByOthers_def run res)
  define toStop where "toStop = filter (\<lambda>s. s \<notin> set r) (depSingletons service)"
  obtain b2 r2 where loop: "stopSingletons_loop b1 toStop = (b2, r2)"
    by (cases "stopSingletons_loop b1 toStop")
  from assms get handler r(1) loop
  have out: "(case stopHandler service of None \<Rightarrow> None | Some outcome \<Rightarrow> outcome) = None"
    "r2 = Inr ()" "b' = b2\<lparr>services := updEntry name (\<lambda>s. s\<lparr>isRunning := False\<rparr>) (services b2)\<rparr>"
    unfolding stopService_def toStop_def
    by (auto simp: Let_def split: option.splits sum.splits)
  from stopSingletons_loop_ok[OF loop[unfolded out(2)]] obtain ks where ks:
    "toStop = map Name ks" "trace b2 = trace b1 @ map SingletonStop ks" "services b2 = services b1"
    "\<forall>k. isStarted b2 k = (isStarted b1 k \<and> k \<notin> set ks)" by blast
  have "\<forall>k. isStarted b' k = isStarted b2 k" "\<forall>k. isStarted b1 k = isStarted b k"
    by (simp_all add: out(3) isStarted_def b1)
  with ks have started: "\<forall>k. isStarted b' k = (isStarted b k \<and> k \<notin> set ks)" by simp
  show ?thesis
    using that[OF service _ _ _ started, of ] ks r(2) b1 out(3)
    by (simp add: toStop_def)
qed


lemma stopped_append: "stopped (xs @ ys) = stopped xs @ stopped ys"
  by (simp add: stopped_def)

lemma stopped_SingletonStop: "stopped (map SingletonStop ks) = map Name ks"
  by (induction ks) (simp_all add: stopped_def)


lemma distinct_not_rev:
  assumes "distinct xs" and "1 < length xs"
  shows "xs \<noteq> rev xs"
proof
  assume eq: "xs = rev xs"
  from assms(2) obtain x y ys where xs: "xs = x # y # ys"
    by (cases xs; cases "tl xs") auto
  have "hd (rev xs) = last xs" using xs by (simp add: hd_rev del: rev.simps)
  with eq have "hd xs = last xs" by simp
  with xs have "x = last (y # ys)" by simp
  moreover have "last (y # ys) \<in> set (y # ys)" by (rule last_in_set) simp
  ultimately show False using assms(1) xs by auto
qed

lemma stopService_stopped:
  assumes "stopService b name = (b', Inr ())" and "isServiceRunning b name = Inr True"
  shows "stopped (newEvents b b') =
           filter (\<lambda>s. s \<notin> set (neededByOthers b name)) (resolvedSingletons b name)"
  using assms
proof (cases rule: stopService_ok)
  case (1 service ks)
  have "stopped (case stopHandler service of None \<Rightarrow> [] | Some x \<Rightarrow> [ServiceStop name]) = []"
    by (simp add: stopped_def split: option.splits)
  with 1(3) have "stopped (newEvents b b') = map Name ks"
    by (simp add: newEvents_def stopped_append stopped_SingletonStop)
  with 1(1,2) show ?thesis by (simp add: resolvedSingletons_def)
qed

text \<open>
  C9.  A successful \<^verbatim>\<open>stopService\<close> invokes the stop routines of the eligible
  singletons (those of the service's cached resolved list that no other running service
  lists) in the order of that list, which is the order they were started in: dependencies
  first.  When more than one singleton is stopped, that order is not the reverse of the
  startup order (the resolved list has no repetitions).
\<close>

theorem C9_teardown_in_startup_order:
  assumes "stopService b name = (b', Inr ())" and "isServiceRunning b name = Inr True"
  shows "stopped (newEvents b b') =
           filter (\<lambda>s. s \<notin> set (neededByOthers b name)) (resolvedSingletons b name) \<and>
         (distinct (resolvedSingletons b name) \<and> 1 < length (stopped (newEvents b b')) \<longrightarrow>
            stopped (newEvents b b') \<noteq>
              rev (filter (\<lambda>s. s \<notin> set (neededByOthers b name)) (resolvedSingletons b name)))"
proof -
  let ?eligible = "filter (\<lambda>s. s \<notin> set (neededByOthers b name)) (resolvedSingletons b name)"
  have eq: "stopped (newEvents b b') = ?eligible" by (rule stopService_stopped[OF assms])
  moreover have "?eligible \<noteq> rev ?eligible"
    if "distinct (resolvedSingletons b name)" "1 < length (stopped (newEvents b b'))"
    using that eq by (intro distinct_not_rev) simp_all
  ultimately show ?thesis by simp
qed

lemmas ex_defs = exRunning_def exSingleton_def exService_def exAction_def

lemmas stop_defs = stopService_def isServiceRunning_def getServiceByName_def
  getRunningServices_def lookup_def updEntry_def setAdd_def Let_def

theorem C9_teardown_in_startup_order_witness:
  "stopped (newEvents exSolo (fst (stopService exSolo ''A''))) = [Name ''s1'', Name ''s2''] \<and>
   stopped (newEvents exSolo (fst (stopService exSolo ''A''))) \<noteq> rev [Name ''s1'', Name ''s2'']"
proof -
  have "snd (stopService exSolo ''A'') = Inr ()"
    by (simp add: exSolo_def ex_defs stop_defs)
  then have stopA: "stopService exSolo ''A'' = (fst (stopService exSolo ''A''), Inr ())"
    by (metis prod.collapse)
  have runA: "isServiceRunning exSolo ''A'' = Inr True"
    by (simp add: exSolo_def ex_defs stop_defs)
  have eligible: "filter (\<lambda>s. s \<notin> set (neededByOthers exSolo ''A''))
      (resolvedSingletons exSolo ''A'') = [Name ''s1'', Name ''s2'']"
    by (simp add: exSolo_def ex_defs stop_defs resolvedSingletons_def neededByOthers_def)
  have "distinct (resolvedSingletons exSolo ''A'')"
    by (simp add: exSolo_def ex_defs resolvedSingletons_def)
  with C9_teardown_in_startup_order[OF stopA runA] eligible show ?thesis by simp
qed











section \<open>The closure computed by getDependencies\<close>

lemma depRel_Image: "map_of reg a = Some e \<Longrightarrow> depRel req reg `` {a} = set (req e)"
  by (auto simp: depRel_def)

lemma depRel_Image_None: "map_of reg a = None \<Longrightarrow> depRel req reg `` {a} = {}"
  by (auto simp: depRel_def)

lemma rtrancl_Image_unfold: "R\<^sup>* `` {a} = insert a (R\<^sup>* `` (R `` {a}))"
  by (auto elim: converse_rtranclE intro: converse_rtrancl_into_rtrancl)

lemma set_setAdd: "set (setAdd x s) = insert x (set s)"
  by (auto simp: setAdd_def)

lemma distinct_setAdd: "distinct s \<Longrightarrow> distinct (setAdd x s)"
  by (auto simp: setAdd_def)

lemma getDependencies_set:
  "getDependencies kind req reg name dependedBy allS = Inr allS' \<Longrightarrow>
     set allS' = set allS \<union> (depRel req reg)\<^sup>* `` {name} \<and>
     (\<forall>n \<in> (depRel req reg)\<^sup>* `` {name}. map_of reg n \<noteq> None)"
  "getDependencies_forEach kind req reg name dependedBy ns allS = Inr allS' \<Longrightarrow>
     set allS' = set allS \<union> (depRel req reg)\<^sup>* `` set ns \<and>
     (\<forall>n \<in> (depRel req reg)\<^sup>* `` set ns. map_of reg n \<noteq> None)"
proof (induction kind req reg name dependedBy allS and kind req reg name dependedBy ns allS
    arbitrary: allS' and allS' rule: getDependencies_getDependencies_forEach.induct)
  case (1 kind req reg name dependedBy allS)
  from "1.prems" obtain entry where entry: "map_of reg name = Some entry"
    by (cases "map_of reg name") auto
  with "1.prems" have "getDependencies_forEach kind req reg name dependedBy (req entry)
      (setAdd name allS) = Inr allS'" by simp
  from "1.IH"[OF entry this]
  have ih: "set allS' = set (setAdd name allS) \<union> (depRel req reg)\<^sup>* `` set (req entry)"
    "\<forall>n \<in> (depRel req reg)\<^sup>* `` set (req entry). map_of reg n \<noteq> None" by blast+
  have unf: "(depRel req reg)\<^sup>* `` {name} = insert name ((depRel req reg)\<^sup>* `` set (req entry))"
    using rtrancl_Image_unfold[of "depRel req reg" name] by (simp add: depRel_Image[OF entry])
  show ?case unfolding unf using ih entry by (simp add: set_setAdd)
next
  case (2 kind req reg name dependedBy allS)
  then show ?case by simp
next
  case (3 kind req reg name dependedBy n ns allS)
  from "3.prems" have notin: "name \<notin> set dependedBy" by (simp split: if_splits)
  with "3.prems" obtain allS1 where
    first: "getDependencies kind req reg n (dependedBy @ [name]) allS = Inr allS1" and
    rest: "getDependencies_forEach kind req reg name dependedBy ns allS1 = Inr allS'"
    by (cases "getDependencies kind req reg n (dependedBy @ [name]) allS") simp_all
  from "3.IH"(1)[OF notin first] "3.IH"(2)[OF notin first rest]
  have "set allS1 = set allS \<union> (depRel req reg)\<^sup>* `` {n}"
    "\<forall>m \<in> (depRel req reg)\<^sup>* `` {n}. map_of reg m \<noteq> None"
    "set allS' = set allS1 \<union> (depRel req reg)\<^sup>* `` set ns"
    "\<forall>m \<in> (depRel req reg)\<^sup>* `` set ns. map_of reg m \<noteq> None" by blast+
  moreover have "(depRel req reg)\<^sup>* `` set (n # ns) =
      (depRel req reg)\<^sup>* `` {n} \<union> (depRel req reg)\<^sup>* `` set ns" by auto
  ultimately show ?case by (simp add: Un_assoc ball_Un)
qed


lemma getDependencies_distinct:
  "getDependencies kind req reg name dependedBy allS = Inr allS' \<Longrightarrow> distinct allS \<Longrightarrow>
     distinct allS'"
  "getDependencies_forEach kind req reg name dependedBy ns allS = Inr allS' \<Longrightarrow> distinct allS \<Longrightarrow>
     distinct allS'"
proof (induction kind req reg name dependedBy allS and kind req reg name dependedBy ns allS
    arbitrary: allS' and allS' rule: getDependencies_getDependencies_forEach.induct)
  case (1 kind req reg name dependedBy allS)
  from "1.prems" obtain entry where entry: "map_of reg name = Some entry"
    by (cases "map_of reg name") auto
  with "1.prems" have "getDependencies_forEach kind req reg name dependedBy (req entry)
      (setAdd name allS) = Inr allS'" by simp
  from "1.IH"[OF entry this] "1.prems"(2) show ?case by (simp add: distinct_setAdd)
next
  case (2 kind req reg name dependedBy allS)
  then show ?case by simp
next
  case (3 kind req reg name dependedBy n ns allS)
  from "3.prems" have notin: "name \<notin> set dependedBy" by (simp split: if_splits)
  with "3.prems" obtain allS1 where
    first: "getDependencies kind req reg n (dependedBy @ [name]) allS = Inr allS1" and
    rest: "getDependencies_forEach kind req reg name dependedBy ns allS1 = Inr allS'"
    by (cases "getDependencies kind req reg n (dependedBy @ [name]) allS") simp_all
  from "3.IH"(1)[OF notin first "3.prems"(2)] "3.IH"(2)[OF notin first rest]
  show ?case by simp
qed

text \<open>A call that returns met no name twice on any path below it.\<close>

lemma getDependencies_no_repeat:
  "getDependencies kind req reg name dependedBy allS = Inr allS' \<Longrightarrow>
     \<forall>y. (name, y) \<in> (depRel req reg)\<^sup>* \<and> depRel req reg `` {y} \<noteq> {} \<longrightarrow> y \<notin> set dependedBy"
  "getDependencies_forEach kind req reg name dependedBy ns allS = Inr allS' \<Longrightarrow>
     (ns \<noteq> [] \<longrightarrow> name \<notin> set dependedBy) \<and>
     (\<forall>m \<in> set ns. \<forall>y. (m, y) \<in> (depRel req reg)\<^sup>* \<and> depRel req reg `` {y} \<noteq> {} \<longrightarrow>
        y \<notin> set dependedBy \<and> y \<noteq> name)"
proof (induction kind req reg name dependedBy allS and kind req reg name dependedBy ns allS
    arbitrary: allS' and allS' rule: getDependencies_getDependencies_forEach.induct)
  case (1 kind req reg name dependedBy allS)
  from "1.prems" obtain entry where entry: "map_of reg name = Some entry"
    by (cases "map_of reg name") auto
  with "1.prems" have "getDependencies_forEach kind req reg name dependedBy (req entry)
      (setAdd name allS) = Inr allS'" by simp
  note ih = "1.IH"[OF entry this]
  show ?case
  proof (intro allI impI)
    fix y assume y: "(name, y) \<in> (depRel req reg)\<^sup>* \<and> depRel req reg `` {y} \<noteq> {}"
    then have "y = name \<or> (\<exists>m. (name, m) \<in> depRel req reg \<and> (m, y) \<in> (depRel req reg)\<^sup>*)"
      by (auto elim: converse_rtranclE)
    then show "y \<notin> set dependedBy"
    proof
      assume "y = name"
      with y entry have "req entry \<noteq> []" by (auto simp: depRel_Image)
      with ih \<open>y = name\<close> show ?thesis by simp
    next
      assume "\<exists>m. (name, m) \<in> depRel req reg \<and> (m, y) \<in> (depRel req reg)\<^sup>*"
      then obtain m where "m \<in> set (req entry)" "(m, y) \<in> (depRel req reg)\<^sup>*"
        using entry by (auto simp: depRel_def)
      with ih y show ?thesis by blast
    qed
  qed
next
  case (2 kind req reg name dependedBy allS)
  then show ?case by simp
next
  case (3 kind req reg name dependedBy n ns allS)
  from "3.prems" have notin: "name \<notin> set dependedBy" by (simp split: if_splits)
  with "3.prems" obtain allS1 where
    first: "getDependencies kind req reg n (dependedBy @ [name]) allS = Inr allS1" and
    rest: "getDependencies_forEach kind req reg name dependedBy ns allS1 = Inr allS'"
    by (cases "getDependencies kind req reg n (dependedBy @ [name]) allS") simp_all
  from "3.IH"(1)[OF notin first] "3.IH"(2)[OF notin first rest] notin
  show ?case by auto
qed

lemma getDependencies_acyclic:
  "getDependencies kind req reg name dependedBy allS = Inr allS' \<Longrightarrow>
     \<forall>y. (name, y) \<in> (depRel req reg)\<^sup>* \<longrightarrow> (y, y) \<notin> (depRel req reg)\<^sup>+"
  "getDependencies_forEach kind req reg name dependedBy ns allS = Inr allS' \<Longrightarrow>
     \<forall>m \<in> set ns. \<forall>y. (m, y) \<in> (depRel req reg)\<^sup>* \<longrightarrow> (y, y) \<notin> (depRel req reg)\<^sup>+"
proof (induction kind req reg name dependedBy allS and kind req reg name dependedBy ns allS
    arbitrary: allS' and allS' rule: getDependencies_getDependencies_forEach.induct)
  case (1 kind req reg name dependedBy allS)
  from "1.prems" obtain entry where entry: "map_of reg name = Some entry"
    by (cases "map_of reg name") auto
  with "1.prems" have each: "getDependencies_forEach kind req reg name dependedBy (req entry)
      (setAdd name allS) = Inr allS'" by simp
  note ih = "1.IH"[OF entry this]
  note rep = getDependencies_no_repeat(2)[OF each]
  show ?case
  proof (intro allI impI)
    fix y assume y: "(name, y) \<in> (depRel req reg)\<^sup>*"
    then have "y = name \<or> (\<exists>m. (name, m) \<in> depRel req reg \<and> (m, y) \<in> (depRel req reg)\<^sup>*)"
      by (auto elim: converse_rtranclE)
    then show "(y, y) \<notin> (depRel req reg)\<^sup>+"
    proof
      assume yn: "y = name"
      show ?thesis
      proof
        assume "(y, y) \<in> (depRel req reg)\<^sup>+"
        with yn obtain m where m: "(name, m) \<in> depRel req reg" "(m, name) \<in> (depRel req reg)\<^sup>*"
          by (auto dest: tranclD)
        with entry have "m \<in> set (req entry)" by (auto simp: depRel_def)
        moreover from m(1) have "depRel req reg `` {name} \<noteq> {}" by auto
        ultimately show False using rep m(2) by blast
      qed
    next
      assume "\<exists>m. (name, m) \<in> depRel req reg \<and> (m, y) \<in> (depRel req reg)\<^sup>*"
      then obtain m where "m \<in> set (req entry)" "(m, y) \<in> (depRel req reg)\<^sup>*"
        using entry by (auto simp: depRel_def)
      with ih show ?thesis by blast
    qed
  qed
next
  case (2 kind req reg name dependedBy allS)
  then show ?case by simp
next
  case (3 kind req reg name dependedBy n ns allS)
  from "3.prems" have notin: "name \<notin> set dependedBy" by (simp split: if_splits)
  with "3.prems" obtain allS1 where
    first: "getDependencies kind req reg n (dependedBy @ [name]) allS = Inr allS1" and
    rest: "getDependencies_forEach kind req reg name dependedBy ns allS1 = Inr allS'"
    by (cases "getDependencies kind req reg n (dependedBy @ [name]) allS") simp_all
  from "3.IH"(1)[OF notin first] "3.IH"(2)[OF notin first rest]
  show ?case by auto
qed


lemma getDependencies_succeeds:
  "\<forall>p \<in> set dependedBy. (p, name) \<in> (depRel req reg)\<^sup>+ \<Longrightarrow>
   \<forall>y. (name, y) \<in> (depRel req reg)\<^sup>* \<longrightarrow>
       map_of reg y \<noteq> None \<and> (y, y) \<notin> (depRel req reg)\<^sup>+ \<Longrightarrow>
   \<exists>allS'. getDependencies kind req reg name dependedBy allS = Inr allS'"
  "\<forall>p \<in> set dependedBy. (p, name) \<in> (depRel req reg)\<^sup>+ \<Longrightarrow>
   (name, name) \<notin> (depRel req reg)\<^sup>+ \<Longrightarrow>
   set ns \<subseteq> depRel req reg `` {name} \<Longrightarrow>
   \<forall>m \<in> set ns. \<forall>y. (m, y) \<in> (depRel req reg)\<^sup>* \<longrightarrow>
       map_of reg y \<noteq> None \<and> (y, y) \<notin> (depRel req reg)\<^sup>+ \<Longrightarrow>
   \<exists>allS'. getDependencies_forEach kind req reg name dependedBy ns allS = Inr allS'"
proof (induction kind req reg name dependedBy allS and kind req reg name dependedBy ns allS
    rule: getDependencies_getDependencies_forEach.induct)
  case (1 kind req reg name dependedBy allS)
  from "1.prems"(2) obtain entry where entry: "map_of reg name = Some entry" by auto
  have sub: "set (req entry) \<subseteq> depRel req reg `` {name}"
    by (simp add: depRel_Image[OF entry])
  have below: "\<forall>m \<in> set (req entry). \<forall>y. (m, y) \<in> (depRel req reg)\<^sup>* \<longrightarrow>
       map_of reg y \<noteq> None \<and> (y, y) \<notin> (depRel req reg)\<^sup>+"
  proof (intro ballI allI impI)
    fix m y assume "m \<in> set (req entry)" "(m, y) \<in> (depRel req reg)\<^sup>*"
    with sub have "(name, y) \<in> (depRel req reg)\<^sup>*"
      by (auto intro: converse_rtrancl_into_rtrancl)
    with "1.prems"(2) show "map_of reg y \<noteq> None \<and> (y, y) \<notin> (depRel req reg)\<^sup>+" by blast
  qed
  from "1.prems"(2) have "(name, name) \<notin> (depRel req reg)\<^sup>+" by blast
  from "1.IH"[OF entry "1.prems"(1) this sub below] entry show ?case by simp
next
  case (2 kind req reg name dependedBy allS)
  then show ?case by simp
next
  case (3 kind req reg name dependedBy n ns allS)
  have notin: "name \<notin> set dependedBy"
  proof
    assume "name \<in> set dependedBy"
    with "3.prems"(1) have "(name, name) \<in> (depRel req reg)\<^sup>+" by blast
    with "3.prems"(2) show False by simp
  qed
  from "3.prems"(3) have edge: "(name, n) \<in> depRel req reg" by auto
  have path: "\<forall>p \<in> set (dependedBy @ [name]). (p, n) \<in> (depRel req reg)\<^sup>+"
    using "3.prems"(1) edge by (auto intro: trancl_into_trancl)
  from "3.prems"(4) have "\<forall>y. (n, y) \<in> (depRel req reg)\<^sup>* \<longrightarrow>
       map_of reg y \<noteq> None \<and> (y, y) \<notin> (depRel req reg)\<^sup>+" by simp
  from "3.IH"(1)[OF notin path this] obtain allS1 where
    first: "getDependencies kind req reg n (dependedBy @ [name]) allS = Inr allS1" ..
  from "3.prems"(3,4) have "set ns \<subseteq> depRel req reg `` {name}"
    "\<forall>m \<in> set ns. \<forall>y. (m, y) \<in> (depRel req reg)\<^sup>* \<longrightarrow>
       map_of reg y \<noteq> None \<and> (y, y) \<notin> (depRel req reg)\<^sup>+" by simp_all
  from "3.IH"(2)[OF notin first "3.prems"(1,2) this] first notin show ?case by simp
qed

lemma successively_snoc2:
  "successively P (xs @ [a, b]) = (successively P (xs @ [a]) \<and> P a b)"
  by (induction xs rule: induct_list012) auto

lemma getDependencies_fails:
  "getDependencies kind req reg name dependedBy allS = Inl e \<Longrightarrow>
   \<forall>y. (name, y) \<in> (depRel req reg)\<^sup>* \<longrightarrow> map_of reg y \<noteq> None \<Longrightarrow>
   successively (\<lambda>a b. (a, b) \<in> depRel req reg) (dependedBy @ [name]) \<Longrightarrow>
   distinct dependedBy \<Longrightarrow>
   \<exists>ys x n. e = cycleMessage kind (dependedBy @ ys @ [x, n]) \<and>
      successively (\<lambda>a b. (a, b) \<in> depRel req reg) (dependedBy @ ys @ [x, n]) \<and>
      distinct (dependedBy @ ys) \<and> x \<in> set (dependedBy @ ys) \<and> hd (ys @ [x]) = name \<and>
      (\<exists>entry. map_of reg x = Some entry \<and> req entry \<noteq> [] \<and> n = hd (req entry))"
  "getDependencies_forEach kind req reg name dependedBy ns allS = Inl e \<Longrightarrow>
   set ns \<subseteq> depRel req reg `` {name} \<Longrightarrow>
   \<forall>m \<in> set ns. \<forall>y. (m, y) \<in> (depRel req reg)\<^sup>* \<longrightarrow> map_of reg y \<noteq> None \<Longrightarrow>
   successively (\<lambda>a b. (a, b) \<in> depRel req reg) (dependedBy @ [name]) \<Longrightarrow>
   distinct dependedBy \<Longrightarrow>
   name \<in> set dependedBy \<longrightarrow> (\<exists>entry. map_of reg name = Some entry \<and> ns = req entry) \<Longrightarrow>
   \<exists>ys x n. e = cycleMessage kind (dependedBy @ ys @ [x, n]) \<and>
      successively (\<lambda>a b. (a, b) \<in> depRel req reg) (dependedBy @ ys @ [x, n]) \<and>
      distinct (dependedBy @ ys) \<and> x \<in> set (dependedBy @ ys) \<and> hd (ys @ [x]) = name \<and>
      (\<exists>entry. map_of reg x = Some entry \<and> req entry \<noteq> [] \<and> n = hd (req entry))"
proof (induction kind req reg name dependedBy allS and kind req reg name dependedBy ns allS
    rule: getDependencies_getDependencies_forEach.induct)
  case (1 kind req reg name dependedBy allS)
  from "1.prems"(2) obtain entry where entry: "map_of reg name = Some entry" by auto
  with "1.prems"(1) have each: "getDependencies_forEach kind req reg name dependedBy (req entry)
      (setAdd name allS) = Inl e" by simp
  have sub: "set (req entry) \<subseteq> depRel req reg `` {name}"
    by (simp add: depRel_Image[OF entry])
  have below: "\<forall>m \<in> set (req entry). \<forall>y. (m, y) \<in> (depRel req reg)\<^sup>* \<longrightarrow> map_of reg y \<noteq> None"
  proof (intro ballI allI impI)
    fix m y assume "m \<in> set (req entry)" "(m, y) \<in> (depRel req reg)\<^sup>*"
    with sub have "(name, y) \<in> (depRel req reg)\<^sup>*"
      by (auto intro: converse_rtrancl_into_rtrancl)
    with "1.prems"(2) show "map_of reg y \<noteq> None" by blast
  qed
  from entry have "name \<in> set dependedBy \<longrightarrow>
      (\<exists>entry'. map_of reg name = Some entry' \<and> req entry = req entry')" by simp
  from "1.IH"[OF entry each sub below "1.prems"(3,4) this] show ?case .
next
  case (2 kind req reg name dependedBy allS)
  then show ?case by simp
next
  case (3 kind req reg name dependedBy n ns allS)
  let ?R = "\<lambda>a b. (a, b) \<in> depRel req reg"
  from "3.prems"(2) have edge: "(name, n) \<in> depRel req reg" by auto
  with "3.prems"(4) have path: "successively ?R (dependedBy @ [name, n])"
    by (simp add: successively_snoc2)
  show ?case
  proof (cases "name \<in> set dependedBy")
    case True
    with "3.prems"(1) have msg: "e = cycleMessage kind (dependedBy @ [] @ [name, n])"
      by (simp add: cycleMessage_def)
    from path have path0: "successively ?R (dependedBy @ [] @ [name, n])" by simp
    from True "3.prems"(6) obtain entry where
      entry: "map_of reg name = Some entry" "n # ns = req entry" by auto
    from entry(2)[symmetric] have "req entry \<noteq> []" "n = hd (req entry)" by simp_all
    with entry(1) have first: "\<exists>entry. map_of reg name = Some entry \<and> req entry \<noteq> [] \<and>
        n = hd (req entry)" by blast
    from msg path0 first True "3.prems"(5) show ?thesis
      by (intro exI[of _ "[]"] exI[of _ name] exI[of _ n]) simp
  next
    case False
    show ?thesis
    proof (cases "getDependencies kind req reg n (dependedBy @ [name]) allS")
      case (Inl e')
      with False "3.prems"(1) have e': "e' = e" by simp
      from "3.prems"(3) have closed: "\<forall>y. (n, y) \<in> (depRel req reg)\<^sup>* \<longrightarrow> map_of reg y \<noteq> None"
        by simp
      from path have path': "successively ?R ((dependedBy @ [name]) @ [n])" by simp
      from False "3.prems"(5) have dist: "distinct (dependedBy @ [name])" by simp
      from "3.IH"(1)[OF False Inl[unfolded e'] closed path' dist]
      obtain ys x n' where ys:
        "e = cycleMessage kind ((dependedBy @ [name]) @ ys @ [x, n'])"
        "successively ?R ((dependedBy @ [name]) @ ys @ [x, n'])"
        "distinct ((dependedBy @ [name]) @ ys)" "x \<in> set ((dependedBy @ [name]) @ ys)"
        "\<exists>entry. map_of reg x = Some entry \<and> req entry \<noteq> [] \<and> n' = hd (req entry)"
        by blast
      show ?thesis
        by (intro exI[of _ "name # ys"] exI[of _ x] exI[of _ n']) (use ys in simp)
    next
      case (Inr allS1)
      with False "3.prems"(1) have rest:
        "getDependencies_forEach kind req reg name dependedBy ns allS1 = Inl e" by simp
      from "3.prems"(2,3) have "set ns \<subseteq> depRel req reg `` {name}"
        "\<forall>m \<in> set ns. \<forall>y. (m, y) \<in> (depRel req reg)\<^sup>* \<longrightarrow> map_of reg y \<noteq> None" by simp_all
      moreover from False have "name \<in> set dependedBy \<longrightarrow>
          (\<exists>entry. map_of reg name = Some entry \<and> ns = req entry)" by simp
      ultimately show ?thesis using "3.IH"(2)[OF False Inr rest _ _ "3.prems"(4,5)] by blast
    qed
  qed
qed


lemma reachable_Cons:
  "reachable req reg (r # roots) = (depRel req reg)\<^sup>* `` {r} \<union> reachable req reg roots"
  by (auto simp: reachable_def)

lemma getDependencies_roots_set:
  "getDependencies_roots kind req reg roots allS = Inr allS' \<Longrightarrow>
     set allS' = set allS \<union> reachable req reg roots \<and> closedFrom req reg roots \<and>
     acyclicFrom req reg roots \<and> (distinct allS \<longrightarrow> distinct allS')"
proof (induction roots arbitrary: allS)
  case Nil
  then show ?case by (simp add: reachable_def closedFrom_def acyclicFrom_def)
next
  case (Cons r roots)
  from Cons.prems obtain allS1 where
    first: "getDependencies kind req reg r [] allS = Inr allS1" and
    rest: "getDependencies_roots kind req reg roots allS1 = Inr allS'"
    by (cases "getDependencies kind req reg r [] allS") simp_all
  note a = getDependencies_set(1)[OF first] getDependencies_acyclic(1)[OF first]
    getDependencies_distinct(1)[OF first]
  note b = Cons.IH[OF rest]
  have "set allS' = set allS \<union> reachable req reg (r # roots)"
    using a(1) b by (auto simp: reachable_Cons)
  moreover have "closedFrom req reg (r # roots)"
    using a(1) b unfolding closedFrom_def reachable_Cons by blast
  moreover have "acyclicFrom req reg (r # roots)"
    using a(2) b unfolding acyclicFrom_def reachable_Cons by blast
  moreover have "distinct allS \<longrightarrow> distinct allS'" using a(3) b by blast
  ultimately show ?case by blast
qed

lemma getDependencies_roots_succeeds:
  "closedFrom req reg roots \<Longrightarrow> acyclicFrom req reg roots \<Longrightarrow>
   \<exists>allS'. getDependencies_roots kind req reg roots allS = Inr allS'"
proof (induction roots arbitrary: allS)
  case Nil
  then show ?case by simp
next
  case (Cons r roots)
  from Cons.prems have "\<forall>y. (r, y) \<in> (depRel req reg)\<^sup>* \<longrightarrow>
       map_of reg y \<noteq> None \<and> (y, y) \<notin> (depRel req reg)\<^sup>+"
    unfolding closedFrom_def acyclicFrom_def reachable_Cons by blast
  from getDependencies_succeeds(1)[OF _ this, of "[]" kind allS] obtain allS1 where
    first: "getDependencies kind req reg r [] allS = Inr allS1" by auto
  from Cons.prems have "closedFrom req reg roots" "acyclicFrom req reg roots"
    unfolding closedFrom_def acyclicFrom_def reachable_Cons by blast+
  from Cons.IH[OF this, of allS1] first show ?case by simp
qed

lemma cycleChainI:
  assumes "successively (\<lambda>a b. (a, b) \<in> depRel req reg) (ys @ [x, n])"
    and "distinct ys" and "x \<in> set ys" and "hd (ys @ [x]) \<in> set roots"
    and "map_of reg x = Some entry" and "req entry \<noteq> []" and "n = hd (req entry)"
  shows "cycleChain req reg roots (ys @ [x, n])"
proof -
  from assms(3) have ne: "ys \<noteq> []" by auto
  have bl: "butlast (ys @ [x, n]) = ys @ [x]"
    by (simp add: butlast_append)
  from ne have "3 \<le> length (ys @ [x, n])" by (cases ys) simp_all
  moreover from ne assms(4) have "hd (ys @ [x, n]) \<in> set roots" by simp
  ultimately show ?thesis using assms(1-3,5-7) unfolding cycleChain_def bl by simp
qed

lemma cycleChain_mono:
  "cycleChain req reg roots chain \<Longrightarrow> set roots \<subseteq> set roots' \<Longrightarrow> cycleChain req reg roots' chain"
  by (auto simp: cycleChain_def)

lemma getDependencies_roots_fails:
  "getDependencies_roots kind req reg roots allS = Inl e \<Longrightarrow> closedFrom req reg roots \<Longrightarrow>
   \<exists>chain. e = cycleMessage kind chain \<and> cycleChain req reg roots chain"
proof (induction roots arbitrary: allS)
  case Nil
  then show ?case by simp
next
  case (Cons r roots)
  show ?case
  proof (cases "getDependencies kind req reg r [] allS")
    case (Inl e')
    with Cons.prems(1) have e': "e' = e" by simp
    from Cons.prems(2) have "\<forall>y. (r, y) \<in> (depRel req reg)\<^sup>* \<longrightarrow> map_of reg y \<noteq> None"
      unfolding closedFrom_def reachable_Cons by blast
    from getDependencies_fails(1)[OF Inl[unfolded e'] this] obtain ys x n where ys:
      "e = cycleMessage kind (ys @ [x, n])"
      "successively (\<lambda>a b. (a, b) \<in> depRel req reg) (ys @ [x, n])"
      "distinct ys" "x \<in> set ys" "hd (ys @ [x]) = r"
      and entry: "\<exists>entry. map_of reg x = Some entry \<and> req entry \<noteq> [] \<and> n = hd (req entry)"
      by auto
    from entry obtain entry where
      "map_of reg x = Some entry" "req entry \<noteq> []" "n = hd (req entry)" by blast
    from cycleChainI[OF ys(2,3,4) _ this, of "r # roots"] ys(5)
    have "cycleChain req reg (r # roots) (ys @ [x, n])" by simp
    with ys(1) show ?thesis by blast
  next
    case (Inr allS1)
    with Cons.prems(1) have rest: "getDependencies_roots kind req reg roots allS1 = Inl e" by simp
    from Cons.prems(2) have "closedFrom req reg roots"
      unfolding closedFrom_def reachable_Cons by blast
    from Cons.IH[OF rest this] obtain chain where
      "e = cycleMessage kind chain" "cycleChain req reg roots chain" by blast
    then show ?thesis using cycleChain_mono[of req reg roots chain "r # roots"] by auto
  qed
qed

lemma getDependencies_roots_cyclic:
  assumes "closedFrom req reg roots" and "\<not> acyclicFrom req reg roots"
  shows "\<exists>chain. getDependencies_roots kind req reg roots allS = Inl (cycleMessage kind chain) \<and>
           cycleChain req reg roots chain"
proof (cases "getDependencies_roots kind req reg roots allS")
  case (Inl e)
  from getDependencies_roots_fails[OF Inl assms(1)] Inl show ?thesis by auto
next
  case (Inr allS')
  from getDependencies_roots_set[OF Inr] assms(2) show ?thesis by simp
qed

section \<open>The depth-first sort is a topological sort\<close>

lemma indexOf_Cons: "indexOf x (y # ys) = (if y = x then 0 else Suc (indexOf x ys))"
  by (simp add: indexOf_def)

lemma set_newSet: "set (newSet xs) = set xs"
  by (simp add: newSet_def set_foldl_setAdd)

lemma set_outgoing: "set (outgoing edges node) = {b. (node, b) \<in> set edges}"
  by (force simp: outgoing_def set_newSet)

lemma set_uniqueNodes_aux:
  "set (foldl (\<lambda>res e. setAdd (snd e) (setAdd (fst e) res)) acc arr) =
     set acc \<union> fst ` set arr \<union> snd ` set arr"
  by (induction arr arbitrary: acc) (auto simp: set_setAdd)

lemma set_uniqueNodes: "set (uniqueNodes arr) = fst ` set arr \<union> snd ` set arr"
  by (simp add: uniqueNodes_def set_uniqueNodes_aux)

lemma dfsInv_finish:
  assumes inv: "dfsInv edges nodes (node # predecessors) (visited', res')"
    and kids: "{b. (node, b) \<in> set edges} \<subseteq> set res'"
    and node: "node \<in> set nodes" "node \<notin> set predecessors"
  shows "dfsInv edges nodes predecessors (visited', node # res')"
proof -
  from inv have fresh: "node \<notin> set res'" by (auto simp: dfsInv_def)
  have order: "b \<in> set (node # res') \<and> indexOf a (node # res') < indexOf b (node # res')"
    if "a \<in> set (node # res')" "(a, b) \<in> set edges" for a b
  proof (cases "a = node")
    case True
    with that kids have "b \<in> set res'" by auto
    with fresh True show ?thesis by (auto simp: indexOf_Cons)
  next
    case False
    with that have "a \<in> set res'" by simp
    with inv that(2) have "b \<in> set res'" "indexOf a res' < indexOf b res'"
      by (auto simp: dfsInv_def)
    with fresh False show ?thesis by (auto simp: indexOf_Cons)
  qed
  from inv fresh node have "set (fst (visited', node # res')) = set (snd (visited', node # res')) \<union> set predecessors"
    "distinct (snd (visited', node # res'))"
    "set (snd (visited', node # res')) \<inter> set predecessors = {}"
    "set (snd (visited', node # res')) \<subseteq> set nodes"
    by (auto simp: dfsInv_def)
  with order show ?thesis unfolding dfsInv_def by simp
qed

lemma visit_correct:
  "acyclic (set edges) \<Longrightarrow> node \<in> set nodes \<Longrightarrow> snd ` set edges \<subseteq> set nodes \<Longrightarrow>
   \<forall>p \<in> set predecessors. (p, node) \<in> (set edges)\<^sup>+ \<Longrightarrow>
   dfsInv edges nodes predecessors st \<Longrightarrow>
   \<exists>st'. visit edges nodes node predecessors st = Inr st' \<and>
         dfsInv edges nodes predecessors st' \<and> node \<in> set (snd st') \<and>
         set (snd st) \<subseteq> set (snd st')"
  "acyclic (set edges) \<Longrightarrow> set children \<subseteq> set nodes \<Longrightarrow> snd ` set edges \<subseteq> set nodes \<Longrightarrow>
   \<forall>c \<in> set children. \<forall>p \<in> set predecessors. (p, c) \<in> (set edges)\<^sup>+ \<Longrightarrow>
   dfsInv edges nodes predecessors st \<Longrightarrow>
   \<exists>st'. visit_children edges nodes children predecessors st = Inr st' \<and>
         dfsInv edges nodes predecessors st' \<and> set children \<subseteq> set (snd st') \<and>
         set (snd st) \<subseteq> set (snd st')"
proof (induction edges nodes node predecessors st and edges nodes children predecessors st
    rule: visit_visit_children.induct)
  case (1 edges nodes node predecessors visited res)
  have notpred: "node \<notin> set predecessors"
  proof
    assume "node \<in> set predecessors"
    with "1.prems"(4) have "(node, node) \<in> (set edges)\<^sup>+" by blast
    with "1.prems"(1) show False by (simp add: acyclic_def)
  qed
  show ?case
  proof (cases "node \<in> set visited")
    case True
    with notpred "1.prems"(5) have "node \<in> set res" by (auto simp: dfsInv_def)
    with True notpred "1.prems"(2,5) show ?thesis by simp
  next
    case False
    with notpred "1.prems"(5) have fresh: "node \<notin> set res" by (auto simp: dfsInv_def)
    have k1: "set (rev (outgoing edges node)) \<subseteq> set nodes"
      using "1.prems"(3) by (auto simp: set_outgoing intro: rev_image_eqI)
    have k2: "\<forall>c \<in> set (rev (outgoing edges node)). \<forall>p \<in> set (node # predecessors).
        (p, c) \<in> (set edges)\<^sup>+"
      using "1.prems"(4) by (auto simp: set_outgoing intro: trancl_into_trancl)
    have k3: "dfsInv edges nodes (node # predecessors) (node # visited, res)"
      using "1.prems"(5) fresh by (auto simp: dfsInv_def)
    from "1.IH"[OF notpred _ False "1.prems"(1) k1 "1.prems"(3) k2 k3] "1.prems"(2)
    obtain st' where st': "visit_children edges nodes (rev (outgoing edges node))
          (node # predecessors) (node # visited, res) = Inr st'"
        "dfsInv edges nodes (node # predecessors) st'"
        "set (rev (outgoing edges node)) \<subseteq> set (snd st')" "set res \<subseteq> set (snd st')"
      by auto
    obtain visited' res' where pair: "st' = (visited', res')" by (cases st')
    from st'(3) pair have "{b. (node, b) \<in> set edges} \<subseteq> set res'"
      by (simp add: set_outgoing)
    from dfsInv_finish[OF st'(2)[unfolded pair] this "1.prems"(2) notpred]
    have "dfsInv edges nodes predecessors (visited', node # res')" .
    moreover from st'(1) pair notpred False "1.prems"(2)
    have "visit edges nodes node predecessors (visited, res) = Inr (visited', node # res')"
      by simp
    ultimately show ?thesis using st'(4) pair by auto
  qed
next
  case (2 edges nodes predecessors st)
  then show ?case by simp
next
  case (3 edges nodes child children predecessors st)
  from "3.prems"(2,4) have c: "child \<in> set nodes" "\<forall>p \<in> set predecessors. (p, child) \<in> (set edges)\<^sup>+"
    by simp_all
  from "3.IH"(1)[OF "3.prems"(1) c(1) "3.prems"(3) c(2) "3.prems"(5)]
  obtain st1 where st1: "visit edges nodes child predecessors st = Inr st1"
    "dfsInv edges nodes predecessors st1" "child \<in> set (snd st1)" "set (snd st) \<subseteq> set (snd st1)"
    by blast
  from "3.prems"(2,4) have cs: "set children \<subseteq> set nodes"
    "\<forall>c \<in> set children. \<forall>p \<in> set predecessors. (p, c) \<in> (set edges)\<^sup>+" by simp_all
  from "3.IH"(2)[OF st1(1) "3.prems"(1) cs(1) "3.prems"(3) cs(2) st1(2)]
  obtain st2 where st2: "visit_children edges nodes children predecessors st1 = Inr st2"
    "dfsInv edges nodes predecessors st2" "set children \<subseteq> set (snd st2)"
    "set (snd st1) \<subseteq> set (snd st2)" by blast
  with st1 show ?case by auto
qed

lemma toposort_loop_correct:
  "acyclic (set edges) \<Longrightarrow> set ns \<subseteq> set nodes \<Longrightarrow> snd ` set edges \<subseteq> set nodes \<Longrightarrow>
   dfsInv edges nodes [] st \<Longrightarrow>
   \<exists>st'. toposort_loop edges nodes ns st = Inr st' \<and> dfsInv edges nodes [] st' \<and>
         set ns \<subseteq> set (snd st') \<and> set (snd st) \<subseteq> set (snd st')"
proof (induction ns arbitrary: st)
  case Nil
  then show ?case by simp
next
  case (Cons n ns)
  from Cons.prems(2) have n: "n \<in> set nodes" by simp
  from visit_correct(1)[OF Cons.prems(1) n Cons.prems(3) _ Cons.prems(4)]
  obtain st1 where st1: "visit edges nodes n [] st = Inr st1" "dfsInv edges nodes [] st1"
    "n \<in> set (snd st1)" "set (snd st) \<subseteq> set (snd st1)" by auto
  from Cons.prems(2) have "set ns \<subseteq> set nodes" by simp
  from Cons.IH[OF Cons.prems(1) this Cons.prems(3) st1(2)]
  obtain st2 where "toposort_loop edges nodes ns st1 = Inr st2" "dfsInv edges nodes [] st2"
    "set ns \<subseteq> set (snd st2)" "set (snd st1) \<subseteq> set (snd st2)" by blast
  with st1 show ?case by auto
qed

lemma toposort_topological:
  assumes "acyclic (set edges)"
  shows "\<exists>out. toposort edges = Inr out \<and> topological edges out"
proof -
  let ?nodes = "uniqueNodes edges"
  have nodes: "set ?nodes = fst ` set edges \<union> snd ` set edges" by (rule set_uniqueNodes)
  have "dfsInv edges ?nodes [] ([], [])" by (simp add: dfsInv_def)
  from toposort_loop_correct[OF assms _ _ this, of "rev ?nodes"] nodes
  obtain st' where st': "toposort_loop edges ?nodes (rev ?nodes) ([], []) = Inr st'"
    "dfsInv edges ?nodes [] st'" "set (rev ?nodes) \<subseteq> set (snd st')" by auto
  obtain visited res where pair: "st' = (visited, res)" by (cases st')
  from st'(2,3) pair have res: "set res = set ?nodes" "distinct res"
    "\<forall>a \<in> set res. \<forall>b. (a, b) \<in> set edges \<longrightarrow> indexOf a res < indexOf b res"
    by (auto simp: dfsInv_def)
  have "indexOf (fst e) res < indexOf (snd e) res" if "e \<in> set edges" for e
  proof -
    from that nodes res(1) have "fst e \<in> set res" by auto
    with res(3) that show ?thesis by (cases e) auto
  qed
  with res(1,2) nodes have "topological edges res" by (simp add: topological_def)
  moreover from st'(1) pair have "toposort edges = Inr res" by (simp add: toposort_def)
  ultimately show ?thesis by blast
qed

lemma sorts_toposort: "sorts toposort"
  by (simp add: sorts_def toposort_topological)

section \<open>The order computed by sortSingletons and sortActions\<close>

lemma set_edgesOf:
  "set (edgesOf req reg names) =
     {(Name a, Name b) | a b. a \<in> set names \<and> (a, b) \<in> depRel req reg}"
  by (induction names) (auto simp: edgesOf_def depRel_def split: option.splits)

lemma edgesOf_Cons:
  "map_of reg name = Some e \<Longrightarrow>
   edgesOf req reg (name # names) = map (\<lambda>n. (Name name, Name n)) (req e) @ edgesOf req reg names"
  by (simp add: edgesOf_def)

lemma sortSingletons_edges_ok:
  "\<forall>n \<in> set names. map_of sgl n \<noteq> None \<Longrightarrow>
   sortSingletons_edges sgl names g = Inr (g @ edgesOf singletonRequires sgl names)"
proof (induction names arbitrary: g)
  case Nil
  then show ?case by (simp add: edgesOf_def)
next
  case (Cons name names)
  then obtain s where s: "map_of sgl name = Some s" by auto
  from Cons.prems have "\<forall>n \<in> set names. map_of sgl n \<noteq> None" by simp
  from Cons.IH[OF this] s show ?case by (simp add: edgesOf_Cons)
qed

lemma indexOf_append_Cons: "x \<notin> set as \<Longrightarrow> indexOf x (as @ x # bs) = length as"
  by (induction as) (auto simp: indexOf_Cons)

lemma indexOf_rev:
  assumes "distinct xs" and "x \<in> set xs"
  shows "indexOf x (rev xs) = length xs - 1 - indexOf x xs"
proof -
  from assms(2) obtain as bs where xs: "xs = as @ x # bs" by (auto simp: in_set_conv_decomp)
  with assms(1) have "x \<notin> set as" "x \<notin> set (rev bs)" by auto
  then have "indexOf x xs = length as" "indexOf x (rev bs @ x # rev as) = length (rev bs)"
    unfolding xs by (simp_all add: indexOf_append_Cons)
  then show ?thesis by (simp add: xs)
qed

lemma indexOf_less_length: "x \<in> set xs \<Longrightarrow> indexOf x xs < length xs"
  by (induction xs) (auto simp: indexOf_Cons)

lemma indexOf_rev_less:
  assumes "distinct xs" "x \<in> set xs" "y \<in> set xs" "indexOf x xs < indexOf y xs"
  shows "indexOf y (rev xs) < indexOf x (rev xs)"
  using assms indexOf_less_length[of y xs] by (simp add: indexOf_rev)

lemma resolution_graph_trancl:
  assumes edges: "E = set (rootEdges roots) \<union> {(Name a, Name b) | a b. a \<in> S \<and> (a, b) \<in> R}"
    and S: "S = R\<^sup>* `` set roots"
    and xy: "(x, y) \<in> E\<^sup>+"
  shows "\<exists>b. y = Name b \<and> b \<in> S \<and> (\<forall>a. x = Name a \<longrightarrow> (a, b) \<in> R\<^sup>+)"
  using xy
proof (induction rule: trancl_induct)
  case (base y)
  then show ?case unfolding edges S rootEdges_def
    by (auto intro: rtrancl_into_rtrancl)
next
  case (step y z)
  then obtain b where b: "y = Name b" "b \<in> S" "\<forall>a. x = Name a \<longrightarrow> (a, b) \<in> R\<^sup>+" by blast
  from step(2) b(1) obtain c where c: "z = Name c" "(b, c) \<in> R"
    unfolding edges rootEdges_def by auto
  from b(2) c(2) have "c \<in> S" unfolding S by (auto intro: rtrancl_into_rtrancl)
  with b(3) c show ?case by (auto intro: trancl_into_trancl)
qed

lemma resolution_graph_acyclic:
  assumes "E = set (rootEdges roots) \<union> {(Name a, Name b) | a b. a \<in> S \<and> (a, b) \<in> R}"
    and "S = R\<^sup>* `` set roots" and "\<forall>n \<in> S. (n, n) \<notin> R\<^sup>+"
  shows "acyclic E"
  unfolding acyclic_def
proof (intro allI notI)
  fix x assume "(x, x) \<in> E\<^sup>+"
  from resolution_graph_trancl[OF assms(1,2) this] assms(3) show False by blast
qed

lemma resolution_graph_reach:
  assumes edges: "E = set (rootEdges roots) \<union> {(Name a, Name b) | a b. a \<in> S \<and> (a, b) \<in> R}"
    and S: "S = R\<^sup>* `` set roots"
  shows "a \<in> S \<Longrightarrow> (ServiceNode, Name a) \<in> E\<^sup>+"
    and "a \<in> S \<Longrightarrow> (a, b) \<in> R\<^sup>+ \<Longrightarrow> (Name a, Name b) \<in> E\<^sup>+ \<and> b \<in> S"
proof -
  have step: "(Name c, Name d) \<in> E \<and> d \<in> S" if "c \<in> S" "(c, d) \<in> R" for c d
    using that unfolding edges S by (auto intro: rtrancl_into_rtrancl)
  have down: "(r, a) \<in> R\<^sup>* \<Longrightarrow> r \<in> set roots \<Longrightarrow> (ServiceNode, Name a) \<in> E\<^sup>+ \<and> a \<in> S" for r a
  proof (induction rule: rtrancl_induct)
    case base
    then show ?case unfolding edges S rootEdges_def by auto
  next
    case (step y z)
    with \<open>\<And>c d. c \<in> S \<Longrightarrow> (c, d) \<in> R \<Longrightarrow> (Name c, Name d) \<in> E \<and> d \<in> S\<close>
    show ?case by (blast intro: trancl_into_trancl)
  qed
  show "a \<in> S \<Longrightarrow> (ServiceNode, Name a) \<in> E\<^sup>+" using down unfolding S by blast
  have up: "(a, b) \<in> R\<^sup>+ \<Longrightarrow> a \<in> S \<Longrightarrow> (Name a, Name b) \<in> E\<^sup>+ \<and> b \<in> S"
  proof (induction rule: trancl_induct)
    case (base y)
    with step show ?case by blast
  next
    case (step y z)
    with \<open>\<And>c d. c \<in> S \<Longrightarrow> (c, d) \<in> R \<Longrightarrow> (Name c, Name d) \<in> E \<and> d \<in> S\<close>
    show ?case by (blast intro: trancl_into_trancl)
  qed
  then show "a \<in> S \<Longrightarrow> (a, b) \<in> R\<^sup>+ \<Longrightarrow> (Name a, Name b) \<in> E\<^sup>+ \<and> b \<in> S" by blast
qed

lemma topological_trancl:
  assumes "topological edges out" and "(x, y) \<in> (set edges)\<^sup>+"
  shows "indexOf x out < indexOf y out"
  using assms(2)
proof (induction rule: trancl_induct)
  case (base y)
  with assms(1) show ?case by (force simp: topological_def)
next
  case (step y z)
  from assms(1) step(2) have "indexOf y out < indexOf z out" by (force simp: topological_def)
  with step(3) show ?case by simp
qed


lemma resolution_order:
  assumes E: "set edges = set (rootEdges roots) \<union> {(Name a, Name b) | a b. a \<in> S \<and> (a, b) \<in> R}"
    and S: "S = R\<^sup>* `` set roots"
    and top: "topological edges out"
  shows "distinct (butlast (rev out)) \<and> ServiceNode \<notin> set (butlast (rev out)) \<and>
         set (butlast (rev out)) = Name ` S \<and>
         (\<forall>a b. Name a \<in> set (butlast (rev out)) \<and> (a, b) \<in> R\<^sup>+ \<longrightarrow>
            Name b \<in> set (butlast (rev out)) \<and>
            indexOf (Name b) (butlast (rev out)) < indexOf (Name a) (butlast (rev out)))"
proof (cases "roots = []")
  case True
  with S have "S = {}" by simp
  with E True have "set edges = {}" by (simp add: rootEdges_def)
  with top have "out = []" by (simp add: topological_def)
  with \<open>S = {}\<close> show ?thesis by simp
next
  case False
  note reach = resolution_graph_reach[OF E S]
  have first: "indexOf ServiceNode out < indexOf (Name a) out" if "a \<in> S" for a
    using topological_trancl[OF top reach(1)[OF that]] .
  have "fst ` set edges \<union> snd ` set edges = insert ServiceNode (Name ` S)"
  proof (intro equalityI subsetI)
    fix x assume "x \<in> fst ` set edges \<union> snd ` set edges"
    then consider r where "x = ServiceNode \<or> x = Name r" "r \<in> set roots"
      | a b where "a \<in> S" "(a, b) \<in> R" "x = Name a \<or> x = Name b"
      unfolding E rootEdges_def by auto
    then show "x \<in> insert ServiceNode (Name ` S)"
    proof cases
      case 1
      then show ?thesis unfolding S by auto
    next
      case 2
      then have "b \<in> S" unfolding S by (auto intro: rtrancl_into_rtrancl)
      with 2 show ?thesis by auto
    qed
  next
    fix x assume x: "x \<in> insert ServiceNode (Name ` S)"
    show "x \<in> fst ` set edges \<union> snd ` set edges"
    proof (cases x)
      case ServiceNode
      from False obtain r where "r \<in> set roots" by (cases roots) auto
      then have "(ServiceNode, Name r) \<in> set edges" unfolding E rootEdges_def by auto
      with ServiceNode show ?thesis by (auto intro: rev_image_eqI)
    next
      case (Name a)
      with x have "a \<in> S" by auto
      from reach(1)[OF this] have "Name a \<in> Range (set edges)" by (auto elim: tranclE)
      with Name show ?thesis by (auto simp: Range_iff intro: rev_image_eqI)
    qed
  qed
  with top have nodes: "set out = insert ServiceNode (Name ` S)" and dist: "distinct out"
    by (simp_all add: topological_def)
  then obtain h rest where out: "out = h # rest" by (cases out) auto
  have h: "h = ServiceNode"
  proof (cases h)
    case (Name a)
    with nodes out have "a \<in> S" by auto
    from first[OF this] Name out show ?thesis by (simp add: indexOf_Cons)
  qed
  from dist out h have rest12: "distinct rest" "ServiceNode \<notin> set rest" by auto
  have "ServiceNode \<notin> Name ` S" by auto
  with nodes out h rest12(2) have "set rest = Name ` S"
    by (simp add: insert_ident)
  with rest12 have rest: "distinct rest" "ServiceNode \<notin> set rest" "set rest = Name ` S"
    by simp_all
  have res: "butlast (rev out) = rev rest" by (simp add: out)
  have order: "Name b \<in> set (rev rest) \<and> indexOf (Name b) (rev rest) < indexOf (Name a) (rev rest)"
    if "Name a \<in> set (rev rest)" "(a, b) \<in> R\<^sup>+" for a b
  proof -
    from that(1) rest(3) have a: "a \<in> S" by auto
    from reach(2)[OF a that(2)] have b: "(Name a, Name b) \<in> (set edges)\<^sup>+" "b \<in> S" by simp_all
    from topological_trancl[OF top b(1)] out h
    have "indexOf (Name a) rest < indexOf (Name b) rest" by (simp add: indexOf_Cons)
    moreover from a b(2) rest(3) have "Name a \<in> set rest" "Name b \<in> set rest" by auto
    ultimately show ?thesis using indexOf_rev_less[OF rest(1)] by simp
  qed
  from order have "\<forall>a b. Name a \<in> set (rev rest) \<and> (a, b) \<in> R\<^sup>+ \<longrightarrow>
      Name b \<in> set (rev rest) \<and> indexOf (Name b) (rev rest) < indexOf (Name a) (rev rest)"
    by blast
  with rest show ?thesis unfolding res by simp
qed

lemma sortSingletons_resolved:
  assumes "sorts sort'"
    and "closedFrom singletonRequires sgl required"
    and "acyclicFrom singletonRequires sgl required"
  shows "\<exists>out. sortSingletons sort' sgl required = Inr out \<and>
           resolved singletonRequires sgl required out"
proof -
  let ?R = "depRel singletonRequires sgl"
  let ?S = "reachable singletonRequires sgl required"
  from getDependencies_roots_succeeds[OF assms(2,3)] obtain allS where
    roots: "getDependencies_roots ''singletons'' singletonRequires sgl required (newSet required)
      = Inr allS" by blast
  have "set required \<subseteq> ?S" by (auto simp: reachable_def)
  with getDependencies_roots_set[OF roots] have allS: "set allS = ?S"
    by (auto simp: set_newSet)
  with assms(2) have "\<forall>n \<in> set allS. map_of sgl n \<noteq> None" by (simp add: closedFrom_def)
  note edges = sortSingletons_edges_ok[OF this, of "rootEdges required"]
  let ?edges = "rootEdges required @ edgesOf singletonRequires sgl allS"
  have E: "set ?edges = set (rootEdges required) \<union> {(Name a, Name b) | a b. a \<in> ?S \<and> (a, b) \<in> ?R}"
    by (simp add: set_edgesOf allS)
  have S: "?S = ?R\<^sup>* `` set required" by (simp add: reachable_def)
  from assms(3) have "\<forall>n \<in> ?S. (n, n) \<notin> ?R\<^sup>+" by (simp add: acyclicFrom_def)
  from resolution_graph_acyclic[OF E S this] assms(1) obtain out where
    out: "sort' ?edges = Inr out" "topological ?edges out" unfolding sorts_def by blast
  from roots edges out(1) have "sortSingletons sort' sgl required = Inr (butlast (rev out))"
    by (simp add: sortSingletons_def rootEdges_def)
  moreover from resolution_order[OF E S out(2)]
  have "resolved singletonRequires sgl required (butlast (rev out))"
    unfolding resolved_def by blast
  ultimately show ?thesis by blast
qed


lemma sortActions_edges_ok:
  "\<forall>n \<in> set names. map_of acts n \<noteq> None \<and> \<not> lacking acts sgls n \<Longrightarrow>
   sortActions_edges acts sgls names g = Inr (g @ edgesOf actionActions acts names)"
proof (induction names arbitrary: g)
  case Nil
  then show ?case by (simp add: edgesOf_def)
next
  case (Cons name names)
  then obtain a where a: "map_of acts name = Some a" by auto
  with Cons.prems have ok: "difference (actionSingletons a) sgls = []"
    by (simp add: lacking_def)
  from Cons.prems have "\<forall>n \<in> set names. map_of acts n \<noteq> None \<and> \<not> lacking acts sgls n"
    by simp
  from Cons.IH[OF this] a ok show ?case by (simp add: edgesOf_Cons)
qed

lemma sortActions_edges_lacking:
  "\<forall>n \<in> set names. map_of acts n \<noteq> None \<Longrightarrow> \<exists>n \<in> set names. lacking acts sgls n \<Longrightarrow>
   \<exists>k a. k \<in> set names \<and> map_of acts k = Some a \<and>
         difference (actionSingletons a) sgls \<noteq> [] \<and>
         sortActions_edges acts sgls names g =
           Inl (notIncludedError k (difference (actionSingletons a) sgls))"
proof (induction names arbitrary: g)
  case Nil
  then show ?case by simp
next
  case (Cons name names)
  then obtain a where a: "map_of acts name = Some a" by auto
  show ?case
  proof (cases "difference (actionSingletons a) sgls = []")
    case True
    with a have "\<not> lacking acts sgls name" by (simp add: lacking_def)
    with Cons.prems have "\<forall>n \<in> set names. map_of acts n \<noteq> None"
      "\<exists>n \<in> set names. lacking acts sgls n" by auto
    from Cons.IH[OF this, of "g @ map (\<lambda>n. (Name name, Name n)) (actionActions a)"]
    obtain k a' where "k \<in> set names" "map_of acts k = Some a'"
      "difference (actionSingletons a') sgls \<noteq> []"
      "sortActions_edges acts sgls names
         (g @ map (\<lambda>n. (Name name, Name n)) (actionActions a)) =
       Inl (notIncludedError k (difference (actionSingletons a') sgls))" by blast
    with a True show ?thesis
      by (intro exI[of _ k] exI[of _ a']) simp
  next
    case False
    with a have "sortActions_edges acts sgls (name # names) g =
        Inl (notIncludedError name (difference (actionSingletons a) sgls))"
      by (simp add: notIncludedError_def)
    with a False show ?thesis by (intro exI[of _ name] exI[of _ a]) simp
  qed
qed

lemma sortActions_edges_included:
  "sortActions_edges acts sgls names g = Inr g' \<Longrightarrow>
   \<forall>n \<in> set names. \<not> lacking acts sgls n"
proof (induction names arbitrary: g)
  case Nil
  then show ?case by simp
next
  case (Cons name names)
  from Cons.prems obtain a where a: "map_of acts name = Some a"
    by (cases "map_of acts name") auto
  with Cons.prems have ok: "difference (actionSingletons a) sgls = []"
    by (auto simp: Let_def split: if_splits)
  with a Cons.prems have "sortActions_edges acts sgls names
      (g @ map (\<lambda>n. (Name name, Name n)) (actionActions a)) = Inr g'" by simp
  from Cons.IH[OF this] a ok show ?case by (simp add: lacking_def)
qed

lemma sortActions_resolved:
  assumes "sorts sort'"
    and "closedFrom actionActions acts required"
    and "acyclicFrom actionActions acts required"
    and "\<forall>k \<in> reachable actionActions acts required. \<not> lacking acts sgls k"
  shows "\<exists>out. sortActions sort' acts required sgls = Inr out \<and>
           resolved actionActions acts required out"
proof -
  let ?R = "depRel actionActions acts"
  let ?S = "reachable actionActions acts required"
  from getDependencies_roots_succeeds[OF assms(2,3)] obtain allS where
    roots: "getDependencies_roots ''actions'' actionActions acts required (newSet required)
      = Inr allS" by blast
  have "set required \<subseteq> ?S" by (auto simp: reachable_def)
  with getDependencies_roots_set[OF roots] have allS: "set allS = ?S"
    by (auto simp: set_newSet)
  with assms(2,4) have "\<forall>n \<in> set allS. map_of acts n \<noteq> None \<and> \<not> lacking acts sgls n"
    by (simp add: closedFrom_def)
  note edges = sortActions_edges_ok[OF this, of "rootEdges required"]
  let ?edges = "rootEdges required @ edgesOf actionActions acts allS"
  have E: "set ?edges = set (rootEdges required) \<union> {(Name a, Name b) | a b. a \<in> ?S \<and> (a, b) \<in> ?R}"
    by (simp add: set_edgesOf allS)
  have S: "?S = ?R\<^sup>* `` set required" by (simp add: reachable_def)
  from assms(3) have "\<forall>n \<in> ?S. (n, n) \<notin> ?R\<^sup>+" by (simp add: acyclicFrom_def)
  from resolution_graph_acyclic[OF E S this] assms(1) obtain out where
    out: "sort' ?edges = Inr out" "topological ?edges out" unfolding sorts_def by blast
  from roots edges out(1) have "sortActions sort' acts required sgls = Inr (butlast (rev out))"
    by (simp add: sortActions_def rootEdges_def)
  moreover from resolution_order[OF E S out(2)]
  have "resolved actionActions acts required (butlast (rev out))"
    unfolding resolved_def by blast
  ultimately show ?thesis by blast
qed

lemma sortActions_lacking:
  assumes "closedFrom actionActions acts required"
    and "acyclicFrom actionActions acts required"
    and "\<exists>k \<in> reachable actionActions acts required. lacking acts sgls k"
  shows "\<exists>k a. k \<in> reachable actionActions acts required \<and> map_of acts k = Some a \<and>
           difference (actionSingletons a) sgls \<noteq> [] \<and>
           (\<forall>sort'. sortActions sort' acts required sgls =
              Inl (notIncludedError k (difference (actionSingletons a) sgls)))"
proof -
  let ?S = "reachable actionActions acts required"
  from getDependencies_roots_succeeds[OF assms(1,2)] obtain allS where
    roots: "getDependencies_roots ''actions'' actionActions acts required (newSet required)
      = Inr allS" by blast
  have "set required \<subseteq> ?S" by (auto simp: reachable_def)
  with getDependencies_roots_set[OF roots] have allS: "set allS = ?S"
    by (auto simp: set_newSet)
  with assms(1,3) have "\<forall>n \<in> set allS. map_of acts n \<noteq> None"
    "\<exists>n \<in> set allS. lacking acts sgls n" by (simp_all add: closedFrom_def)
  from sortActions_edges_lacking[OF this, of "rootEdges required"]
  obtain k a where k: "k \<in> set allS" "map_of acts k = Some a"
    "difference (actionSingletons a) sgls \<noteq> []"
    "sortActions_edges acts sgls allS (rootEdges required) =
       Inl (notIncludedError k (difference (actionSingletons a) sgls))" by blast
  from roots k(4) have "\<forall>sort'. sortActions sort' acts required sgls =
      Inl (notIncludedError k (difference (actionSingletons a) sgls))"
    by (simp add: sortActions_def rootEdges_def)
  with k(1-3) allS show ?thesis by blast
qed

lemma sortActions_included:
  assumes "sortActions sort' acts required sgls = Inr out"
  shows "\<forall>k \<in> reachable actionActions acts required. \<not> lacking acts sgls k"
proof -
  from assms obtain allS where
    roots: "getDependencies_roots ''actions'' actionActions acts required (newSet required)
      = Inr allS"
    by (cases "getDependencies_roots ''actions'' actionActions acts required (newSet required)")
       (simp_all add: sortActions_def)
  with assms obtain g where
    "sortActions_edges acts sgls allS (rootEdges required) = Inr g"
    by (cases "sortActions_edges acts sgls allS (rootEdges required)")
       (simp_all add: sortActions_def rootEdges_def)
  from sortActions_edges_included[OF this] have "\<forall>n \<in> set allS. \<not> lacking acts sgls n" .
  moreover have "set required \<subseteq> reachable actionActions acts required"
    by (auto simp: reachable_def)
  with getDependencies_roots_set[OF roots]
  have "set allS = reachable actionActions acts required" by (auto simp: set_newSet)
  ultimately show ?thesis by simp
qed

lemma sortSingletons_cyclic:
  assumes "closedFrom singletonRequires sgl required"
    and "\<not> acyclicFrom singletonRequires sgl required"
  shows "\<exists>chain. cycleChain singletonRequires sgl required chain \<and>
           (\<forall>sort'. sortSingletons sort' sgl required = Inl (cycleMessage ''singletons'' chain))"
proof -
  from getDependencies_roots_cyclic[OF assms, of "''singletons''" "newSet required"]
  obtain chain where "getDependencies_roots ''singletons'' singletonRequires sgl required
      (newSet required) = Inl (cycleMessage ''singletons'' chain)"
    "cycleChain singletonRequires sgl required chain" by blast
  then show ?thesis by (auto simp: sortSingletons_def)
qed

lemma sortActions_cyclic:
  assumes "closedFrom actionActions acts required"
    and "\<not> acyclicFrom actionActions acts required"
  shows "\<exists>chain. cycleChain actionActions acts required chain \<and>
           (\<forall>sort' sgls. sortActions sort' acts required sgls =
              Inl (cycleMessage ''actions'' chain))"
proof -
  from getDependencies_roots_cyclic[OF assms, of "''actions''" "newSet required"]
  obtain chain where "getDependencies_roots ''actions'' actionActions acts required
      (newSet required) = Inl (cycleMessage ''actions'' chain)"
    "cycleChain actionActions acts required chain" by blast
  then show ?thesis by (auto simp: sortActions_def)
qed


lemmas sort_defs = sortSingletons_def sortActions_def newSet_def setAdd_def toposort_def
  uniqueNodes_def outgoing_def difference_def Let_def

lemma exDag_roots:
  "getDependencies_roots ''singletons'' singletonRequires exDag [''a''] (newSet [''a'']) =
     Inr [''a'', ''b'', ''d'', ''c'']"
  by (simp add: exDag_def exSingleton_def sort_defs)

lemma exDag_sorted:
  "sortSingletons toposort exDag [''a''] = Inr [Name ''d'', Name ''c'', Name ''b'', Name ''a'']"
  by (simp add: exDag_def exSingleton_def sort_defs)

lemma exCycle_fails:
  "sortSingletons toposort exCycle [''A''] =
     Inl (Error ''Found singletons circular dependency: A -> B -> C -> A -> B'')"
  by (simp add: exCycle_def exSingleton_def sort_defs)

lemma exActions_sorted:
  "sortActions toposort exActions [''doThat''] [Name ''d''] = Inr [Name ''doIt'', Name ''doThat'']"
  by (simp add: exActions_def exAction_def sort_defs)

lemma exActions_lacking:
  \<open>sortActions toposort exActions [''doThat''] [] =
     Inl (Error ''Action "doIt" requires not included singleton(s): "d". Please add them to service definition'')\<close>
  by (simp add: exActions_def exAction_def sort_defs)


lemma reachable_eval:
  assumes "getDependencies_roots kind req reg roots (newSet roots) = Inr allS"
  shows "reachable req reg roots = set allS" "closedFrom req reg roots" "acyclicFrom req reg roots"
proof -
  have "set roots \<subseteq> reachable req reg roots" by (auto simp: reachable_def)
  with getDependencies_roots_set[OF assms] show "reachable req reg roots = set allS"
    by (auto simp: set_newSet)
  from getDependencies_roots_set[OF assms]
  show "closedFrom req reg roots" "acyclicFrom req reg roots" by simp_all
qed

section \<open>Resolution: order, cycles and missing singletons\<close>

text \<open>
  C1.  Let the imported sort be a topological sort.  When every name reachable from the
  requested ones is registered and none lies on a cycle, \<^verbatim>\<open>sortSingletons\<close> returns
  a list without the service node that holds exactly the reachable names, each once and
  each strictly after every name it depends on, directly or not.  \<^verbatim>\<open>sortActions\<close>
  does the same for actions when, in addition, every reachable action finds its singletons
  among the resolved ones.
\<close>

theorem C1_resolution_order:
  assumes "sorts sort'"
  shows "(closedFrom singletonRequires sgl required \<and> acyclicFrom singletonRequires sgl required \<longrightarrow>
            (\<exists>out. sortSingletons sort' sgl required = Inr out \<and>
                   resolved singletonRequires sgl required out)) \<and>
         (closedFrom actionActions acts requiredActions \<and>
          acyclicFrom actionActions acts requiredActions \<and>
          (\<forall>k \<in> reachable actionActions acts requiredActions. \<not> lacking acts sgls k) \<longrightarrow>
            (\<exists>out. sortActions sort' acts requiredActions sgls = Inr out \<and>
                   resolved actionActions acts requiredActions out))"
  using sortSingletons_resolved[OF assms, of sgl required]
    sortActions_resolved[OF assms, of acts requiredActions sgls]
  by blast

theorem C1_resolution_order_witness:
  "resolved singletonRequires exDag [''a''] [Name ''d'', Name ''c'', Name ''b'', Name ''a''] \<and>
   resolved actionActions exActions [''doThat''] [Name ''doIt'', Name ''doThat'']"
proof -
  have s: "closedFrom singletonRequires exDag [''a'']" "acyclicFrom singletonRequires exDag [''a'']"
    using reachable_eval[OF exDag_roots] by simp_all
  have "getDependencies_roots ''actions'' actionActions exActions [''doThat'']
      (newSet [''doThat'']) = Inr [''doThat'', ''doIt'']"
    by (simp add: exActions_def exAction_def sort_defs)
  note a = reachable_eval[OF this]
  have l: "\<forall>k \<in> reachable actionActions exActions [''doThat'']. \<not> lacking exActions [Name ''d''] k"
    unfolding a(1) by (simp add: lacking_def exActions_def exAction_def difference_def)
  from C1_resolution_order[OF sorts_toposort, of exDag "[''a'']" exActions "[''doThat'']" "[Name ''d'']"] s a(2,3) l
  show ?thesis by (simp add: exDag_sorted exActions_sorted)
qed

lemma startService_singletons_fail:
  assumes "map_of (services b) name = Some service" and "\<not> isRunning service"
    and "sortSingletons sort' (singletons b) (serviceSingletons service) = Inl e"
  shows "startService sort' lo b name =
           (b\<lparr>services := updEntry name (\<lambda>s. s\<lparr>isRunning := True\<rparr>) (services b)\<rparr>, Inl e)"
  using assms
  by (simp add: startService_def getServiceByName_def isServiceRunning_def Let_def)

lemma startService_actions_fail:
  assumes "map_of (services b) name = Some service" and "\<not> isRunning service"
    and "sortSingletons sort' (singletons b) (serviceSingletons service) = Inr ss"
    and "sortActions sort' (actions b) (serviceActions service @ localActionsNames name service) ss
           = Inl e"
  shows "startService sort' lo b name =
           (b\<lparr>services := updEntry name (\<lambda>s. s\<lparr>depSingletons := ss\<rparr>)
                  (updEntry name (\<lambda>s. s\<lparr>isRunning := True\<rparr>) (services b))\<rparr>, Inl e)"
  using assms
  by (simp add: startService_def getServiceByName_def isServiceRunning_def Let_def
      localActionsNames_def)

text \<open>
  C2 (as amended).  When every reachable name is registered and one of them lies on a
  cycle, resolution fails with the circular-dependency error, whatever the imported sort
  does: the sort is never reached.  The message enumerates a chain of names: a path of
  requirements from a requested name to the first name that repeats on it (for the cycle
  A, B, C requested at A: A, B, C, A), followed by the first requirement of the repeated
  name (here B).  \<^verbatim>\<open>startService\<close> then rejects with that error and invokes no
  routine.
\<close>

theorem C2_cycle_reported_before_sort:
  "(closedFrom singletonRequires sgl required \<and> \<not> acyclicFrom singletonRequires sgl required \<longrightarrow>
      (\<exists>chain. cycleChain singletonRequires sgl required chain \<and>
         (\<forall>sort'. sortSingletons sort' sgl required = Inl (cycleMessage ''singletons'' chain)))) \<and>
   (closedFrom actionActions acts requiredActions \<and>
    \<not> acyclicFrom actionActions acts requiredActions \<longrightarrow>
      (\<exists>chain. cycleChain actionActions acts requiredActions chain \<and>
         (\<forall>sort' sgls. sortActions sort' acts requiredActions sgls =
            Inl (cycleMessage ''actions'' chain)))) \<and>
   (map_of (services b) name = Some service \<and> \<not> isRunning service \<and>
    closedFrom singletonRequires (singletons b) (serviceSingletons service) \<and>
    \<not> acyclicFrom singletonRequires (singletons b) (serviceSingletons service) \<longrightarrow>
      (\<exists>chain. cycleChain singletonRequires (singletons b) (serviceSingletons service) chain \<and>
         (\<forall>sort' lo. snd (startService sort' lo b name) = Inl (cycleMessage ''singletons'' chain) \<and>
                  trace (fst (startService sort' lo b name)) = trace b))) \<and>
   (map_of (services b) name = Some service \<and> \<not> isRunning service \<and>
    sortSingletons sort'' (singletons b) (serviceSingletons service) = Inr ss \<and>
    closedFrom actionActions (actions b) (serviceActions service @ localActionsNames name service) \<and>
    \<not> acyclicFrom actionActions (actions b)
        (serviceActions service @ localActionsNames name service) \<longrightarrow>
      (\<exists>chain. cycleChain actionActions (actions b)
                 (serviceActions service @ localActionsNames name service) chain \<and>
         snd (startService sort'' lo b name) = Inl (cycleMessage ''actions'' chain) \<and>
         trace (fst (startService sort'' lo b name)) = trace b))"
proof (intro conjI impI)
  assume "closedFrom singletonRequires sgl required \<and> \<not> acyclicFrom singletonRequires sgl required"
  then show "\<exists>chain. cycleChain singletonRequires sgl required chain \<and>
      (\<forall>sort'. sortSingletons sort' sgl required = Inl (cycleMessage ''singletons'' chain))"
    using sortSingletons_cyclic by blast
next
  assume "closedFrom actionActions acts requiredActions \<and>
      \<not> acyclicFrom actionActions acts requiredActions"
  then show "\<exists>chain. cycleChain actionActions acts requiredActions chain \<and>
      (\<forall>sort' sgls. sortActions sort' acts requiredActions sgls =
         Inl (cycleMessage ''actions'' chain))"
    using sortActions_cyclic by blast
next
  assume h: "map_of (services b) name = Some service \<and> \<not> isRunning service \<and>
    closedFrom singletonRequires (singletons b) (serviceSingletons service) \<and>
    \<not> acyclicFrom singletonRequires (singletons b) (serviceSingletons service)"
  then obtain chain where chain:
    "cycleChain singletonRequires (singletons b) (serviceSingletons service) chain"
    "\<forall>sort'. sortSingletons sort' (singletons b) (serviceSingletons service) =
        Inl (cycleMessage ''singletons'' chain)"
    using sortSingletons_cyclic by blast
  have "snd (startService sort' lo b name) = Inl (cycleMessage ''singletons'' chain) \<and>
        trace (fst (startService sort' lo b name)) = trace b" for sort' lo
    using startService_singletons_fail[of b name service sort'] h chain(2) by simp
  with chain(1) show "\<exists>chain. cycleChain singletonRequires (singletons b)
      (serviceSingletons service) chain \<and>
      (\<forall>sort' lo. snd (startService sort' lo b name) = Inl (cycleMessage ''singletons'' chain) \<and>
         trace (fst (startService sort' lo b name)) = trace b)" by blast
next
  assume h: "map_of (services b) name = Some service \<and> \<not> isRunning service \<and>
    sortSingletons sort'' (singletons b) (serviceSingletons service) = Inr ss \<and>
    closedFrom actionActions (actions b) (serviceActions service @ localActionsNames name service) \<and>
    \<not> acyclicFrom actionActions (actions b)
        (serviceActions service @ localActionsNames name service)"
  then obtain chain where chain:
    "cycleChain actionActions (actions b)
       (serviceActions service @ localActionsNames name service) chain"
    "\<forall>sort' sgls. sortActions sort' (actions b)
        (serviceActions service @ localActionsNames name service) sgls =
        Inl (cycleMessage ''actions'' chain)"
    using sortActions_cyclic by blast
  from startService_actions_fail[of b name service sort'' ss] h chain(2)
  have "snd (startService sort'' lo b name) = Inl (cycleMessage ''actions'' chain) \<and>
        trace (fst (startService sort'' lo b name)) = trace b" by simp
  with chain(1) show "\<exists>chain. cycleChain actionActions (actions b)
      (serviceActions service @ localActionsNames name service) chain \<and>
      snd (startService sort'' lo b name) = Inl (cycleMessage ''actions'' chain) \<and>
      trace (fst (startService sort'' lo b name)) = trace b" by blast
qed


lemma closedFromI:
  assumes "\<forall>p \<in> set reg. \<forall>n \<in> set (req (snd p)). map_of reg n \<noteq> None"
    and "\<forall>r \<in> set roots. map_of reg r \<noteq> None"
  shows "closedFrom req reg roots"
  unfolding closedFrom_def reachable_def
proof
  fix n assume "n \<in> (depRel req reg)\<^sup>* `` set roots"
  then obtain r where r: "r \<in> set roots" "(r, n) \<in> (depRel req reg)\<^sup>*" by auto
  from r(2) show "map_of reg n \<noteq> None"
  proof (induction rule: rtrancl_induct)
    case base
    with r(1) assms(2) show ?case by simp
  next
    case (step y z)
    from step(2) obtain e where "map_of reg y = Some e" "z \<in> set (req e)"
      by (auto simp: depRel_def)
    with assms(1) show ?case by (auto dest!: map_of_SomeD)
  qed
qed

lemma exCycle_closed: "closedFrom singletonRequires exCycle [''A'']"
  by (rule closedFromI) (simp_all add: exCycle_def exSingleton_def)

lemma exCycle_cyclic: "\<not> acyclicFrom singletonRequires exCycle [''A'']"
proof
  assume "acyclicFrom singletonRequires exCycle [''A'']"
  from getDependencies_roots_succeeds[OF exCycle_closed this, of "''singletons''" "newSet [''A'']"]
  show False by (simp add: exCycle_def exSingleton_def sort_defs)
qed

lemma exFork_fails:
  "sortSingletons toposort exFork [''A''] =
     Inl (Error ''Found singletons circular dependency: A -> B -> A -> B'')"
  by (simp add: exFork_def exSingleton_def sort_defs)

lemma exFork_closed: "closedFrom singletonRequires exFork [''A'']"
  by (rule closedFromI) (auto simp: exFork_def exSingleton_def)

lemma exFork_cyclic: "\<not> acyclicFrom singletonRequires exFork [''A'']"
proof
  assume "acyclicFrom singletonRequires exFork [''A'']"
  from getDependencies_roots_succeeds[OF exFork_closed this, of "''singletons''" "newSet [''A'']"]
  show False by (simp add: exFork_def exSingleton_def sort_defs)
qed

lemma exFork_chain:
  "cycleChain singletonRequires exFork [''A''] [''A'', ''B'', ''A'', ''B'']"
  "\<not> cycleChain singletonRequires exFork [''A''] [''A'', ''B'', ''A'', ''D'']"
  by (simp_all add: cycleChain_def depRel_def exFork_def exSingleton_def)

lemma exCyclicActions_fails:
  "sortActions toposort (actions exCyclicActions) [''X''] [] =
     Inl (Error ''Found actions circular dependency: X -> Y -> X -> Y'')"
  by (simp add: exCyclicActions_def exAction_def sort_defs)

lemma exCyclicActions_closed: "closedFrom actionActions (actions exCyclicActions) [''X'']"
  by (rule closedFromI) (simp_all add: exCyclicActions_def exAction_def)

lemma exCyclicActions_cyclic: "\<not> acyclicFrom actionActions (actions exCyclicActions) [''X'']"
proof
  assume "acyclicFrom actionActions (actions exCyclicActions) [''X'']"
  from getDependencies_roots_succeeds[OF exCyclicActions_closed this, of "''actions''" "newSet [''X'']"]
  show False by (simp add: exCyclicActions_def exAction_def sort_defs)
qed

theorem C2_cycle_reported_before_sort_witness:
  "(\<forall>sort'. sortSingletons sort' exCycle [''A''] =
      Inl (Error ''Found singletons circular dependency: A -> B -> C -> A -> B'')) \<and>
   (\<forall>sort'. sortSingletons sort' exFork [''A''] =
      Inl (Error ''Found singletons circular dependency: A -> B -> A -> B'')) \<and>
   \<not> cycleChain singletonRequires exFork [''A''] [''A'', ''B'', ''A'', ''D''] \<and>
   (\<forall>sort' sgls. sortActions sort' (actions exCyclicActions) [''X''] sgls =
      Inl (Error ''Found actions circular dependency: X -> Y -> X -> Y'')) \<and>
   (\<forall>sort' lo. snd (startService sort' lo exCyclicBroker ''svc'') =
      Inl (Error ''Found singletons circular dependency: A -> B -> C -> A -> B'') \<and>
      trace (fst (startService sort' lo exCyclicBroker ''svc'')) = []) \<and>
   snd (startService toposort keyLodash exCyclicActions ''svc'') =
      Inl (Error ''Found actions circular dependency: X -> Y -> X -> Y'') \<and>
   trace (fst (startService toposort keyLodash exCyclicActions ''svc'')) = []"
proof -
  have srv: "map_of (services exCyclicBroker) ''svc'' = Some (exService [''A''] [])"
    "\<not> isRunning (exService [''A''] [])"
    by (simp_all add: exCyclicBroker_def exService_def)
  have eqs: "singletons exCyclicBroker = exCycle"
    "serviceSingletons (exService [''A''] []) = [''A'']" "trace exCyclicBroker = []"
    by (simp_all add: exCyclicBroker_def exService_def)
  note c2 = C2_cycle_reported_before_sort[of exCycle "[''A'']" "actions exCyclicActions" "[''X'']"
      exCyclicBroker "''svc''" "exService [''A''] []"]
  from c2[THEN conjunct1, rule_format, OF conjI[OF exCycle_closed exCycle_cyclic]]
  obtain chain where
    chain: "\<forall>sort'. sortSingletons sort' exCycle [''A''] = Inl (cycleMessage ''singletons'' chain)"
    by blast
  from chain[rule_format, of toposort] exCycle_fails
  have msg: "cycleMessage ''singletons'' chain =
      Error ''Found singletons circular dependency: A -> B -> C -> A -> B''"
    by simp
  from C2_cycle_reported_before_sort[of exFork "[''A'']", THEN conjunct1, rule_format,
      OF conjI[OF exFork_closed exFork_cyclic]]
  obtain chainF where
    chainF: "\<forall>sort'. sortSingletons sort' exFork [''A''] = Inl (cycleMessage ''singletons'' chainF)"
    by blast
  from chainF[rule_format, of toposort] exFork_fails
  have msgF: "cycleMessage ''singletons'' chainF =
      Error ''Found singletons circular dependency: A -> B -> A -> B''"
    by simp
  from c2[THEN conjunct2, THEN conjunct1, rule_format,
      OF conjI[OF exCyclicActions_closed exCyclicActions_cyclic]]
  obtain chainA where
    chainA: "\<forall>sort' sgls. sortActions sort' (actions exCyclicActions) [''X''] sgls =
        Inl (cycleMessage ''actions'' chainA)"
    by blast
  from chainA[rule_format, of toposort "[]"] exCyclicActions_fails
  have msgA: "cycleMessage ''actions'' chainA =
      Error ''Found actions circular dependency: X -> Y -> X -> Y''"
    by simp
  have hyp: "map_of (services exCyclicBroker) ''svc'' = Some (exService [''A''] []) \<and>
      \<not> isRunning (exService [''A''] []) \<and>
      closedFrom singletonRequires (singletons exCyclicBroker)
        (serviceSingletons (exService [''A''] [])) \<and>
      \<not> acyclicFrom singletonRequires (singletons exCyclicBroker)
        (serviceSingletons (exService [''A''] []))"
    unfolding eqs using srv exCycle_closed exCycle_cyclic by simp
  from c2[THEN conjunct2, THEN conjunct2, THEN conjunct1, rule_format, OF hyp]
  obtain chain' where
    chain': "\<forall>sort' lo. snd (startService sort' lo exCyclicBroker ''svc'') =
        Inl (cycleMessage ''singletons'' chain') \<and>
        trace (fst (startService sort' lo exCyclicBroker ''svc'')) = trace exCyclicBroker"
    by blast
  have "snd (startService toposort keyLodash exCyclicBroker ''svc'') =
      Inl (Error ''Found singletons circular dependency: A -> B -> C -> A -> B'')"
    using startService_singletons_fail[of exCyclicBroker "''svc''" "exService [''A''] []" toposort]
      srv exCycle_fails by (simp add: eqs)
  with chain'[rule_format, of toposort keyLodash] have msg': "cycleMessage ''singletons'' chain' =
      Error ''Found singletons circular dependency: A -> B -> C -> A -> B''"
    by simp
  have srvA: "map_of (services exCyclicActions) ''svc'' = Some (exService [] [''X''])"
    "\<not> isRunning (exService [] [''X''])"
    by (simp_all add: exCyclicActions_def exService_def)
  have eqsA: "serviceSingletons (exService [] [''X'']) = []"
    "serviceActions (exService [] [''X'']) @ localActionsNames ''svc'' (exService [] [''X'']) = [''X'']"
    "trace exCyclicActions = []"
    by (simp_all add: exCyclicActions_def exService_def localActionsNames_def)
  have ss: "sortSingletons toposort (singletons exCyclicActions)
      (serviceSingletons (exService [] [''X''])) = Inr []"
    by (simp add: exCyclicActions_def exService_def sort_defs)
  have hypA: "map_of (services exCyclicActions) ''svc'' = Some (exService [] [''X'']) \<and>
      \<not> isRunning (exService [] [''X'']) \<and>
      sortSingletons toposort (singletons exCyclicActions)
        (serviceSingletons (exService [] [''X''])) = Inr [] \<and>
      closedFrom actionActions (actions exCyclicActions)
        (serviceActions (exService [] [''X'']) @ localActionsNames ''svc'' (exService [] [''X''])) \<and>
      \<not> acyclicFrom actionActions (actions exCyclicActions)
        (serviceActions (exService [] [''X'']) @ localActionsNames ''svc'' (exService [] [''X'']))"
    unfolding eqsA(2) using srvA ss exCyclicActions_closed exCyclicActions_cyclic by simp
  from C2_cycle_reported_before_sort[of _ _ _ _ exCyclicActions "''svc''" "exService [] [''X'']"
      toposort "[]", THEN conjunct2, THEN conjunct2, THEN conjunct2, rule_format, OF hypA]
  obtain chainB where chainB:
    "snd (startService toposort keyLodash exCyclicActions ''svc'') = Inl (cycleMessage ''actions'' chainB)"
    "trace (fst (startService toposort keyLodash exCyclicActions ''svc'')) = trace exCyclicActions"
    by blast
  have "snd (startService toposort keyLodash exCyclicActions ''svc'') =
      Inl (Error ''Found actions circular dependency: X -> Y -> X -> Y'')"
    using startService_actions_fail[of exCyclicActions "''svc''" "exService [] [''X'']" toposort "[]"]
      srvA ss exCyclicActions_fails by (simp add: eqsA)
  with chainB eqsA(3) have last: "snd (startService toposort keyLodash exCyclicActions ''svc'') =
      Inl (Error ''Found actions circular dependency: X -> Y -> X -> Y'')"
    "trace (fst (startService toposort keyLodash exCyclicActions ''svc'')) = []" by simp_all
  from chain msg chainF msgF chainA msgA chain' msg' eqs(3) last exFork_chain(2)
  show ?thesis by simp
qed

theorem C2_cycle_reported_before_sort_counterexample:
  "sortSingletons toposort exCycle [''A''] =
     Inl (Error ''Found singletons circular dependency: A -> B -> C -> A -> B'') \<and>
   sortSingletons toposort exCycle [''A''] \<noteq>
     Inl (Error ''Found singletons circular dependency: A -> B -> C -> A'')"
  by (simp add: exCycle_fails)

text \<open>
  C5 (as amended).  When resolution fails inside \<^verbatim>\<open>startService\<close> (in
  \<^verbatim>\<open>sortSingletons\<close>, or in \<^verbatim>\<open>sortActions\<close> after the singletons were sorted),
  the call rejects with that error before any routine runs: the trace, the singletons, the
  actions and the plugins are as before.  The service entry is not: \<^verbatim>\<open>isRunning\<close>
  was set before resolution and stays set, so the broker reports the service as running.
\<close>

theorem C5_failed_resolution_starts_nothing:
  assumes "map_of (services b) name = Some service" and "\<not> isRunning service"
    and "sortSingletons sort' (singletons b) (serviceSingletons service) = Inl e \<or>
         (\<exists>ss. sortSingletons sort' (singletons b) (serviceSingletons service) = Inr ss \<and>
               sortActions sort' (actions b)
                 (serviceActions service @ localActionsNames name service) ss = Inl e)"
    and "startService sort' lo b name = (b', r)"
  shows "r = Inl e \<and> trace b' = trace b \<and> singletons b' = singletons b \<and>
         actions b' = actions b \<and> plugins b' = plugins b \<and>
         isServiceRunning b' name = Inr True"
  using assms(3)
proof
  assume "sortSingletons sort' (singletons b) (serviceSingletons service) = Inl e"
  from startService_singletons_fail[OF assms(1,2) this] assms(1,4)
  show ?thesis
    by (auto simp: isServiceRunning_def getServiceByName_def map_of_updEntry)
next
  assume "\<exists>ss. sortSingletons sort' (singletons b) (serviceSingletons service) = Inr ss \<and>
      sortActions sort' (actions b)
        (serviceActions service @ localActionsNames name service) ss = Inl e"
  then obtain ss where "sortSingletons sort' (singletons b) (serviceSingletons service) = Inr ss"
    "sortActions sort' (actions b)
        (serviceActions service @ localActionsNames name service) ss = Inl e" by blast
  from startService_actions_fail[OF assms(1,2) this] assms(1,4)
  show ?thesis
    by (auto simp: isServiceRunning_def getServiceByName_def map_of_updEntry)
qed

theorem C5_failed_resolution_starts_nothing_witness:
  "snd (startService toposort keyLodash exCyclicBroker ''svc'') =
     Inl (Error ''Found singletons circular dependency: A -> B -> C -> A -> B'') \<and>
   trace (fst (startService toposort keyLodash exCyclicBroker ''svc'')) = [] \<and>
   isServiceRunning (fst (startService toposort keyLodash exCyclicBroker ''svc'')) ''svc'' = Inr True \<and>
   snd (startService toposort keyLodash exCyclicActions ''svc'') =
     Inl (Error ''Found actions circular dependency: X -> Y -> X -> Y'') \<and>
   trace (fst (startService toposort keyLodash exCyclicActions ''svc'')) = [] \<and>
   isServiceRunning (fst (startService toposort keyLodash exCyclicActions ''svc'')) ''svc'' = Inr True"
proof -
  have srv: "map_of (services exCyclicBroker) ''svc'' = Some (exService [''A''] [])"
    "\<not> isRunning (exService [''A''] [])"
    by (simp_all add: exCyclicBroker_def exService_def)
  have fails: "sortSingletons toposort (singletons exCyclicBroker)
      (serviceSingletons (exService [''A''] [])) =
      Inl (Error ''Found singletons circular dependency: A -> B -> C -> A -> B'')"
    using exCycle_fails by (simp add: exCyclicBroker_def exService_def)
  have pair: "startService toposort keyLodash exCyclicBroker ''svc'' =
      (fst (startService toposort keyLodash exCyclicBroker ''svc''),
       snd (startService toposort keyLodash exCyclicBroker ''svc''))" by simp
  have srvA: "map_of (services exCyclicActions) ''svc'' = Some (exService [] [''X''])"
    "\<not> isRunning (exService [] [''X''])"
    by (simp_all add: exCyclicActions_def exService_def)
  have failsA: "\<exists>ss. sortSingletons toposort (singletons exCyclicActions)
        (serviceSingletons (exService [] [''X''])) = Inr ss \<and>
      sortActions toposort (actions exCyclicActions)
        (serviceActions (exService [] [''X'']) @ localActionsNames ''svc'' (exService [] [''X''])) ss =
      Inl (Error ''Found actions circular dependency: X -> Y -> X -> Y'')"
    using exCyclicActions_fails
    by (simp add: exCyclicActions_def exService_def localActionsNames_def sort_defs)
  have pairA: "startService toposort keyLodash exCyclicActions ''svc'' =
      (fst (startService toposort keyLodash exCyclicActions ''svc''),
       snd (startService toposort keyLodash exCyclicActions ''svc''))" by simp
  from C5_failed_resolution_starts_nothing[OF srv disjI1[OF fails] pair]
    C5_failed_resolution_starts_nothing[OF srvA disjI2[OF failsA] pairA]
  show ?thesis
    by (simp add: exCyclicBroker_def exCyclicActions_def)
qed

theorem C5_failed_resolution_starts_nothing_counterexample:
  "isServiceRunning exCyclicBroker ''svc'' = Inr False \<and>
   isl (snd (startService toposort keyLodash exCyclicBroker ''svc'')) \<and>
   isServiceRunning (fst (startService toposort keyLodash exCyclicBroker ''svc'')) ''svc'' = Inr True \<and>
   startService toposort keyLodash (fst (startService toposort keyLodash exCyclicBroker ''svc'')) ''svc'' =
     (fst (startService toposort keyLodash exCyclicBroker ''svc''), Inr ())"
proof -
  have srv: "map_of (services exCyclicBroker) ''svc'' = Some (exService [''A''] [])"
    "\<not> isRunning (exService [''A''] [])"
    by (simp_all add: exCyclicBroker_def exService_def)
  have fails: "sortSingletons toposort (singletons exCyclicBroker)
      (serviceSingletons (exService [''A''] [])) =
      Inl (Error ''Found singletons circular dependency: A -> B -> C -> A -> B'')"
    using exCycle_fails by (simp add: exCyclicBroker_def exService_def)
  note run = startService_singletons_fail[OF srv fails]
  show ?thesis unfolding run
    by (simp add: exCyclicBroker_def exService_def isServiceRunning_def getServiceByName_def
        updEntry_def startService_def)
qed


lemma lacking_iff:
  "map_of acts k = Some a \<Longrightarrow>
   lacking acts sgls k = (\<exists>s \<in> set (actionSingletons a). Name s \<notin> set sgls)"
  by (auto simp: lacking_def difference_def filter_empty_conv)

text \<open>
  C7.  When the closure of the requested actions is computed (every reachable action is
  registered, none on a cycle) and some action in it declares a singleton that is not among
  the singletons resolved for the service, \<^verbatim>\<open>sortActions\<close> fails, before and
  whatever the sort, with the error of lines 353-356 naming such an action and the
  singletons it lacks.  With a cycle it fails before the sort as well.  Conversely, when
  \<^verbatim>\<open>sortActions\<close> returns, every singleton of every reachable action is among the
  resolved ones.
\<close>

theorem C7_action_singletons_resolved:
  "(closedFrom actionActions acts required \<and> acyclicFrom actionActions acts required \<and>
    (\<exists>k \<in> reachable actionActions acts required. lacking acts sgls k) \<longrightarrow>
      (\<exists>k a. k \<in> reachable actionActions acts required \<and> map_of acts k = Some a \<and>
             difference (actionSingletons a) sgls \<noteq> [] \<and>
             (\<forall>sort'. sortActions sort' acts required sgls =
                Inl (notIncludedError k (difference (actionSingletons a) sgls))))) \<and>
   (closedFrom actionActions acts required \<and>
    (\<exists>k \<in> reachable actionActions acts required. lacking acts sgls k) \<longrightarrow>
      (\<exists>e. \<forall>sort'. sortActions sort' acts required sgls = Inl e)) \<and>
   (sortActions sort'' acts required sgls = Inr out \<longrightarrow>
      (\<forall>k \<in> reachable actionActions acts required. \<forall>a. map_of acts k = Some a \<longrightarrow>
         (\<forall>s \<in> set (actionSingletons a). Name s \<in> set sgls)))"
proof (intro conjI impI)
  assume "closedFrom actionActions acts required \<and> acyclicFrom actionActions acts required \<and>
    (\<exists>k \<in> reachable actionActions acts required. lacking acts sgls k)"
  then show "\<exists>k a. k \<in> reachable actionActions acts required \<and> map_of acts k = Some a \<and>
      difference (actionSingletons a) sgls \<noteq> [] \<and>
      (\<forall>sort'. sortActions sort' acts required sgls =
         Inl (notIncludedError k (difference (actionSingletons a) sgls)))"
    using sortActions_lacking[of acts required sgls] by blast
next
  assume h: "closedFrom actionActions acts required \<and>
    (\<exists>k \<in> reachable actionActions acts required. lacking acts sgls k)"
  show "\<exists>e. \<forall>sort'. sortActions sort' acts required sgls = Inl e"
  proof (cases "acyclicFrom actionActions acts required")
    case True
    with h sortActions_lacking[of acts required sgls] show ?thesis by blast
  next
    case False
    with h sortActions_cyclic[of acts required] show ?thesis by blast
  qed
next
  assume "sortActions sort'' acts required sgls = Inr out"
  from sortActions_included[OF this]
  show "\<forall>k \<in> reachable actionActions acts required. \<forall>a. map_of acts k = Some a \<longrightarrow>
      (\<forall>s \<in> set (actionSingletons a). Name s \<in> set sgls)"
    using lacking_iff by blast
qed

theorem C7_action_singletons_resolved_witness:
  \<open>(\<forall>sort'. sortActions sort' exActions [''doThat''] [] =
      Inl (Error ''Action "doIt" requires not included singleton(s): "d". Please add them to service definition'')) \<and>
   (\<forall>sort'. isl (sortActions sort' exActions [''doThat''] [])) \<and>
   sortActions toposort exActions [''doThat''] [Name ''d''] = Inr [Name ''doIt'', Name ''doThat''] \<and>
   \<not> lacking exActions [Name ''d''] ''doIt''\<close>
proof -
  have "getDependencies_roots ''actions'' actionActions exActions [''doThat'']
      (newSet [''doThat'']) = Inr [''doThat'', ''doIt'']"
    by (simp add: exActions_def exAction_def sort_defs)
  note a = reachable_eval[OF this]
  have l: "\<exists>k \<in> reachable actionActions exActions [''doThat'']. lacking exActions [] k"
    unfolding a(1) by (simp add: lacking_def exActions_def exAction_def difference_def)
  note c7 = C7_action_singletons_resolved[of exActions "[''doThat'']" "[]"]
  from c7[THEN conjunct1, rule_format, OF conjI[OF a(2) conjI[OF a(3) l]]]
  obtain k and a' :: action where ka: "\<forall>sort'. sortActions sort' exActions [''doThat''] [] =
      Inl (notIncludedError k (difference (actionSingletons a') []))" by blast
  from ka[rule_format, of toposort] exActions_lacking
  have \<open>notIncludedError k (difference (actionSingletons a') []) =
      Error ''Action "doIt" requires not included singleton(s): "d". Please add them to service definition''\<close>
    by simp
  with ka have one: \<open>\<forall>sort'. sortActions sort' exActions [''doThat''] [] =
      Inl (Error ''Action "doIt" requires not included singleton(s): "d". Please add them to service definition'')\<close>
    by simp
  from c7[THEN conjunct2, THEN conjunct1, rule_format, OF conjI[OF a(2) l]]
  have two: "\<forall>sort'. isl (sortActions sort' exActions [''doThat''] [])" by auto
  have d: "map_of exActions ''doIt'' = Some (exAction [] [''d''] (Fn 1))"
    "''doIt'' \<in> reachable actionActions exActions [''doThat'']"
    unfolding a(1) by (simp_all add: exActions_def)
  from C7_action_singletons_resolved[of exActions "[''doThat'']" "[Name ''d'']" toposort
      "[Name ''doIt'', Name ''doThat'']", THEN conjunct2, THEN conjunct2, rule_format,
      OF exActions_sorted d(2) d(1)]
  have three: "\<not> lacking exActions [Name ''d''] ''doIt''"
    using d(1) by (simp add: lacking_def difference_def exAction_def)
  from one two exActions_sorted three show ?thesis by simp
qed

section \<open>Construction\<close>










lemma Broker_cases:
  "Broker sgl acts plgs srvs =
     (case checkServices sgl (withLocalActions srvs acts) srvs of
        Some e \<Rightarrow> Inl e
      | None \<Rightarrow>
          (case checkSingletons sgl of
             Some e \<Rightarrow> Inl e
           | None \<Rightarrow>
               (case checkActions sgl (withLocalActions srvs acts) of
                  Some e \<Rightarrow> Inl e
                | None \<Rightarrow>
                    Inr \<lparr>singletons = sgl, actions = withLocalActions srvs acts, plugins = plgs,
                         services = srvs, trace = []\<rparr>)))"
  by (simp add: Broker_def Let_def)




section \<open>A start routine runs once between stops\<close>

lemma pending_snoc: "pending k (evs @ [e]) = pendingStep k (pending k evs) e"
  by (simp add: pending_def)

lemma atMostOnce_snoc:
  "atMostOnce k (evs @ [e]) = (atMostOnce k evs \<and> pending k (evs @ [e]) \<le> 1)"
proof
  assume a: "atMostOnce k (evs @ [e])"
  have "pending k (take n evs) \<le> 1" if "n \<le> length evs" for n
    using a[unfolded atMostOnce_def, rule_format, of n] that by simp
  moreover have "pending k (evs @ [e]) \<le> 1"
    using a[unfolded atMostOnce_def, rule_format, of "Suc (length evs)"] by simp
  ultimately show "atMostOnce k evs \<and> pending k (evs @ [e]) \<le> 1"
    by (simp add: atMostOnce_def)
next
  assume a: "atMostOnce k evs \<and> pending k (evs @ [e]) \<le> 1"
  show "atMostOnce k (evs @ [e])"
    unfolding atMostOnce_def
  proof (intro allI impI)
    fix n assume "n \<le> length (evs @ [e])"
    then consider "n \<le> length evs" | "n = Suc (length evs)" by fastforce
    then show "pending k (take n (evs @ [e])) \<le> 1"
    proof cases
      case 1
      with a show ?thesis by (simp add: atMostOnce_def)
    next
      case 2
      with a show ?thesis by simp
    qed
  qed
qed

lemma atMostOnce_Nil: "atMostOnce k []"
  by (simp add: atMostOnce_def pending_def)

lemma atMostOnce_pending: "atMostOnce k evs \<Longrightarrow> pending k evs \<le> 1"
  unfolding atMostOnce_def by (drule spec[of _ "length evs"]) simp

lemma startedOnce_other:
  assumes "startedOnce k b" and "trace b' = trace b @ [e]"
    and "\<And>n. pendingStep k n e = n"
    and "isStarted b' k = isStarted b k"
  shows "startedOnce k b'"
  using assms atMostOnce_pending[of k "trace b"]
  by (simp add: startedOnce_def atMostOnce_snoc pending_snoc)

lemma startedOnce_same:
  assumes "startedOnce k b" and "trace b' = trace b" and "isStarted b' k = isStarted b k"
  shows "startedOnce k b'"
  using assms by (simp add: startedOnce_def)

lemma startedOnce_start:
  assumes "startedOnce k b" and "\<not> isStarted b k" and "trace b' = trace b @ [SingletonStart k bag]"
    and "isStarted b' k"
  shows "startedOnce k b'"
  using assms by (simp add: startedOnce_def atMostOnce_snoc pending_snoc pendingStep_def)

lemma startedOnce_stop:
  assumes "startedOnce k b" and "trace b' = trace b @ [SingletonStop k]"
  shows "startedOnce k b'"
  using assms by (simp add: startedOnce_def atMostOnce_snoc pending_snoc pendingStep_def)

lemma isStarted_updEntry_started:
  "isStarted (b\<lparr>singletons := updEntry k0 (\<lambda>s. s\<lparr>started := v\<rparr>) (singletons b)\<rparr>) k =
     (if k = k0 \<and> map_of (singletons b) k0 \<noteq> None then v else isStarted b k)"
  by (auto simp: isStarted_def map_of_updEntry split: option.splits)

lemma isStarted_updEntry_inst:
  "isStarted (b\<lparr>singletons := updEntry k0 (\<lambda>s. s\<lparr>inst := v\<rparr>) (singletons b)\<rparr>) k = isStarted b k"
  by (auto simp: isStarted_def map_of_updEntry split: option.splits)

lemma isStarted_trace [simp]: "isStarted (b\<lparr>trace := t\<rparr>) k = isStarted b k"
  by (simp add: isStarted_def)

lemma isStarted_services [simp]: "isStarted (b\<lparr>services := t\<rparr>) k = isStarted b k"
  by (simp add: isStarted_def)

lemma isStarted_actions [simp]: "isStarted (b\<lparr>actions := t\<rparr>) k = isStarted b k"
  by (simp add: isStarted_def)


lemma startSingletons_step_cases:
  assumes "startSingletons_step b n = (b', r)"
  obtains
    (failed) e where "b' = b" "r = Inl e"
  | (cached) k s where "n = Name k" "map_of (singletons b) k = Some s" "started s"
      "b' = b" "r = Inr (k, inst s)"
  | (threw) k s deps e where "n = Name k" "map_of (singletons b) k = Some s" "\<not> started s"
      "start s (singletonBag deps) = Inl e"
      "b' = b\<lparr>singletons := updEntry k (\<lambda>s. s\<lparr>started := True\<rparr>) (singletons b),
              trace := trace b @ [SingletonStart k (singletonBag deps)]\<rparr>"
      "r = Inl e"
  | (fresh) k s deps v where "n = Name k" "map_of (singletons b) k = Some s" "\<not> started s"
      "start s (singletonBag deps) = Inr v"
      "b' = b\<lparr>singletons := updEntry k (\<lambda>s. s\<lparr>inst := v\<rparr>)
                (updEntry k (\<lambda>s. s\<lparr>started := True\<rparr>) (singletons b)),
              trace := trace b @ [SingletonStart k (singletonBag deps)]\<rparr>"
      "r = Inr (k, v)"
proof (cases n)
  case ServiceNode
  with assms have "b' = b" "r = Inl TypeError"
    unfolding startSingletons_step_def by simp_all
  then show ?thesis using that(1) by blast
next
  case (Name k)
  note n = this
  show ?thesis
  proof (cases "map_of (singletons b) k")
    case None
    with assms n have "b' = b" "r = Inl TypeError"
      unfolding startSingletons_step_def by simp_all
    then show ?thesis using that(1) by blast
  next
    case (Some s)
    note s = this
    show ?thesis
    proof (cases "started s")
      case True
      with assms n s have "b' = b" "r = Inr (k, inst s)"
        unfolding startSingletons_step_def by simp_all
      with n s True show ?thesis using that(2) by blast
    next
      case False
      note f = this
      show ?thesis
      proof (cases "instancesOf (singletons b) (singletonRequires s) []")
        case (Inl e)
        with assms n s f have "b' = b" "r = Inl e"
          unfolding startSingletons_step_def by simp_all
        then show ?thesis using that(1) by blast
      next
        case (Inr deps)
        note deps = this
        show ?thesis
        proof (cases "start s (singletonBag deps)")
          case (Inl e)
          with assms n s f deps
          have "b' = b\<lparr>singletons := updEntry k (\<lambda>s. s\<lparr>started := True\<rparr>) (singletons b),
              trace := trace b @ [SingletonStart k (singletonBag deps)]\<rparr>" "r = Inl e"
            unfolding startSingletons_step_def startSingletons_await_def singletonBag_def by (auto simp add: Let_def)
          with n s f Inl show ?thesis using that(3) by blast
        next
          case (Inr v)
          with assms n s f deps
          have "b' = b\<lparr>singletons := updEntry k (\<lambda>s. s\<lparr>inst := v\<rparr>)
                (updEntry k (\<lambda>s. s\<lparr>started := True\<rparr>) (singletons b)),
              trace := trace b @ [SingletonStart k (singletonBag deps)]\<rparr>" "r = Inr (k, v)"
            unfolding startSingletons_step_def startSingletons_await_def singletonBag_def by (auto simp add: Let_def)
          with n s f Inr show ?thesis using that(4) by blast
        qed
      qed
    qed
  qed
qed

lemma pendingStep_other_start: "k' \<noteq> k \<Longrightarrow> pendingStep k n (SingletonStart k' bag) = n"
  by (simp add: pendingStep_def)

lemma pendingStep_other_stop: "k' \<noteq> k \<Longrightarrow> pendingStep k n (SingletonStop k') = n"
  by (simp add: pendingStep_def)

lemma pendingStep_neutral:
  "pendingStep k n (ActionCompose a bag) = n" "pendingStep k n (ServiceStart s bag) = n"
  "pendingStep k n (ServiceStop s) = n"
  by (simp_all add: pendingStep_def)

lemma isStarted_started_inst:
  "isStarted (b\<lparr>singletons := updEntry k0 (\<lambda>s. s\<lparr>inst := v\<rparr>)
      (updEntry k0 (\<lambda>s. s\<lparr>started := True\<rparr>) (singletons b))\<rparr>) k =
     (if k = k0 \<and> map_of (singletons b) k0 \<noteq> None then True else isStarted b k)"
  by (auto simp: isStarted_def map_of_updEntry split: option.splits)

lemma isStarted_started_trace:
  "isStarted (b\<lparr>singletons := updEntry k0 (\<lambda>s. s\<lparr>started := v\<rparr>) (singletons b)\<rparr>) k =
     (if k = k0 \<and> map_of (singletons b) k0 \<noteq> None then v else isStarted b k)"
  by (auto simp: isStarted_def map_of_updEntry split: option.splits)

lemma startSingletons_step_once:
  assumes "startSingletons_step b n = (b', r)" and "startedOnce k0 b"
  shows "startedOnce k0 b'"
  using assms(1)
proof (cases rule: startSingletons_step_cases)
  case (failed e)
  with assms(2) show ?thesis by simp
next
  case (cached k s)
  with assms(2) show ?thesis by simp
next
  case (threw k s deps e)
  show ?thesis
  proof (cases "k = k0")
    case True
    with threw(2,3) have "\<not> isStarted b k0" by (simp add: isStarted_def)
    from startedOnce_start[OF assms(2) this, of b' "singletonBag deps"] threw True
    show ?thesis by (simp add: isStarted_started_trace)
  next
    case False
    from startedOnce_other[OF assms(2), of b' "SingletonStart k (singletonBag deps)"] threw False
    show ?thesis by (simp add: pendingStep_other_start isStarted_started_trace)
  qed
next
  case (fresh k s deps v)
  show ?thesis
  proof (cases "k = k0")
    case True
    with fresh(2,3) have "\<not> isStarted b k0" by (simp add: isStarted_def)
    from startedOnce_start[OF assms(2) this, of b' "singletonBag deps"] fresh True
    show ?thesis by (simp add: isStarted_started_inst)
  next
    case False
    from startedOnce_other[OF assms(2), of b' "SingletonStart k (singletonBag deps)"] fresh False
    show ?thesis by (simp add: pendingStep_other_start isStarted_started_inst)
  qed
qed

lemma keeps_refl: "keeps k b b"
  by (simp add: keeps_def)

lemma keeps_trans: "keeps k b b1 \<Longrightarrow> keeps k b1 b2 \<Longrightarrow> keeps k b b2"
  unfolding keeps_def by fastforce

lemma instOf_trace [simp]: "instOf (b\<lparr>trace := t\<rparr>) k = instOf b k"
  by (simp add: instOf_def)

lemma instOf_services [simp]: "instOf (b\<lparr>services := t\<rparr>) k = instOf b k"
  by (simp add: instOf_def)

lemma instOf_actions [simp]: "instOf (b\<lparr>actions := t\<rparr>) k = instOf b k"
  by (simp add: instOf_def)

lemma instOf_other:
  "k \<noteq> k0 \<Longrightarrow> instOf (b\<lparr>singletons := updEntry k0 f (singletons b)\<rparr>) k = instOf b k"
  by (simp add: instOf_def map_of_updEntry)

lemma instOf_other2:
  "k \<noteq> k0 \<Longrightarrow> instOf (b\<lparr>singletons := updEntry k0 f (updEntry k0 g (singletons b))\<rparr>) k
     = instOf b k"
  by (simp add: instOf_def map_of_updEntry)

lemma startSingletons_step_keeps:
  assumes "startSingletons_step b n = (b', r)"
  shows "keeps k0 b b'"
  using assms
proof (cases rule: startSingletons_step_cases)
  case (failed e)
  then show ?thesis by (simp add: keeps_refl)
next
  case (cached k s)
  then show ?thesis by (simp add: keeps_refl)
next
  case (threw k s deps e)
  show ?thesis unfolding keeps_def
  proof
    assume st: "isStarted b k0"
    with threw(2,3) have ne: "k0 \<noteq> k" by (auto simp: isStarted_def)
    with st threw(5) show "isStarted b' k0 \<and> instOf b' k0 = instOf b k0 \<and>
        (\<exists>evs. trace b' = trace b @ evs \<and> (\<forall>bag. SingletonStart k0 bag \<notin> set evs))"
      by (simp add: isStarted_started_trace instOf_other)
  qed
next
  case (fresh k s deps v)
  show ?thesis unfolding keeps_def
  proof
    assume st: "isStarted b k0"
    with fresh(2,3) have ne: "k0 \<noteq> k" by (auto simp: isStarted_def)
    with st fresh(5) show "isStarted b' k0 \<and> instOf b' k0 = instOf b k0 \<and>
        (\<exists>evs. trace b' = trace b @ evs \<and> (\<forall>bag. SingletonStart k0 bag \<notin> set evs))"
      by (simp add: isStarted_started_inst instOf_other2)
  qed
qed

lemma startSingletons_loop_once:
  "startSingletons_loop b names result = (b', r) \<Longrightarrow> startedOnce k0 b \<Longrightarrow> startedOnce k0 b'"
proof (induction names arbitrary: b result)
  case Nil
  then show ?case by simp
next
  case (Cons n names)
  obtain b1 r1 where step: "startSingletons_step b n = (b1, r1)"
    by (cases "startSingletons_step b n")
  note once = startSingletons_step_once[OF step Cons.prems(2)]
  show ?case
  proof (cases r1)
    case (Inl e)
    with Cons.prems(1) step once show ?thesis by simp
  next
    case (Inr kv)
    with Cons.prems(1) step
    have "startSingletons_loop b1 names (setProp (fst kv) (snd kv) result) = (b', r)"
      by (simp add: case_prod_beta)
    from Cons.IH[OF this once] show ?thesis .
  qed
qed

lemma startSingletons_loop_keeps:
  "startSingletons_loop b names result = (b', r) \<Longrightarrow> keeps k0 b b'"
proof (induction names arbitrary: b result)
  case Nil
  then show ?case by (simp add: keeps_refl)
next
  case (Cons n names)
  obtain b1 r1 where step: "startSingletons_step b n = (b1, r1)"
    by (cases "startSingletons_step b n")
  note k = startSingletons_step_keeps[OF step, of k0]
  show ?case
  proof (cases r1)
    case (Inl e)
    with Cons.prems(1) step k show ?thesis by simp
  next
    case (Inr kv)
    with Cons.prems(1) step
    have "startSingletons_loop b1 names (setProp (fst kv) (snd kv) result) = (b', r)"
      by (simp add: case_prod_beta)
    from keeps_trans[OF k Cons.IH[OF this]] show ?thesis .
  qed
qed

lemma map_of_setProp: "map_of (setProp k v ps) k' = (if k' = k then Some v else map_of ps k')"
  by (induction ps) auto

lemma startSingletons_loop_cached:
  "startSingletons_loop b names result = (b', Inr res) \<Longrightarrow> isStarted b k0 \<Longrightarrow>
   map_of res k0 = (if Name k0 \<in> set names then Some (instOf b k0) else map_of result k0)"
proof (induction names arbitrary: b result)
  case Nil
  then show ?case by simp
next
  case (Cons n names)
  obtain b1 r1 where step: "startSingletons_step b n = (b1, r1)"
    by (cases "startSingletons_step b n")
  from startSingletons_step_keeps[OF step, of k0] Cons.prems(2)
  have k: "isStarted b1 k0" "instOf b1 k0 = instOf b k0" by (simp_all add: keeps_def)
  from Cons.prems(1) step obtain k1 v1 where r1: "r1 = Inr (k1, v1)"
    by (cases r1) auto
  with Cons.prems(1) step
  have loop: "startSingletons_loop b1 names (setProp k1 v1 result) = (b', Inr res)" by simp
  note ih = Cons.IH[OF loop k(1)]
  have head: "n = Name k0 \<Longrightarrow> k1 = k0 \<and> v1 = instOf b k0"
    using step r1 Cons.prems(2)
    by (cases rule: startSingletons_step_cases) (auto simp: isStarted_def instOf_def)
  have other: "n \<noteq> Name k0 \<Longrightarrow> k1 \<noteq> k0"
    using step r1 by (cases rule: startSingletons_step_cases) auto
  show ?case
  proof (cases "n = Name k0")
    case True
    with head ih k(2) show ?thesis by (simp add: map_of_setProp)
  next
    case False
    with other ih k(2) show ?thesis by (simp add: map_of_setProp)
  qed
qed


lemma pendingStep_neutral_event: "neutral k e \<Longrightarrow> pendingStep k n e = n"
  by (cases e) (auto simp: neutral_def pendingStep_def)

lemma pending_neutral: "\<forall>e \<in> set evs. neutral k e \<Longrightarrow> pending k (xs @ evs) = pending k xs"
proof (induction evs rule: rev_induct)
  case Nil
  then show ?case by simp
next
  case (snoc e evs)
  then have "pending k ((xs @ evs) @ [e]) = pending k xs"
    unfolding pending_snoc by (simp add: pendingStep_neutral_event)
  then show ?case by simp
qed

lemma atMostOnce_neutral:
  "\<forall>e \<in> set evs. neutral k e \<Longrightarrow> atMostOnce k xs \<Longrightarrow> atMostOnce k (xs @ evs)"
proof (induction evs rule: rev_induct)
  case Nil
  then show ?case by simp
next
  case (snoc e evs)
  then have "atMostOnce k (xs @ evs)" by simp
  moreover from snoc.prems(1) have "pending k ((xs @ evs) @ [e]) = pending k xs"
    using pending_neutral[of "evs @ [e]" k xs] by simp
  ultimately have "atMostOnce k ((xs @ evs) @ [e])"
    using atMostOnce_pending[OF snoc.prems(2)] unfolding atMostOnce_snoc by simp
  then show ?case by simp
qed

lemma startedOnce_neutral:
  assumes "startedOnce k b" and "trace b' = trace b @ evs" and "\<forall>e \<in> set evs. neutral k e"
    and "isStarted b' k = isStarted b k"
  shows "startedOnce k b'"
  using assms by (simp add: startedOnce_def atMostOnce_neutral pending_neutral)

lemma keeps_neutral:
  assumes "trace b' = trace b @ evs" and "\<forall>e \<in> set evs. neutral k e"
    and "isStarted b' k = isStarted b k" and "instOf b' k = instOf b k"
  shows "keeps k b b'"
  using assms by (auto simp: keeps_def neutral_def)

lemma startActions_step_effect:
  assumes "startActions_step lo b n = (b', r)"
  shows "singletons b' = singletons b \<and>
         (\<exists>evs. trace b' = trace b @ evs \<and> (\<forall>e \<in> set evs. neutral k e))"
  using assms by (cases rule: startActions_step_cases) (auto simp: neutral_def)

lemma startActions_loop_effect:
  "startActions_loop lo b names result = (b', r) \<Longrightarrow>
   singletons b' = singletons b \<and>
   (\<exists>evs. trace b' = trace b @ evs \<and> (\<forall>e \<in> set evs. neutral k e))"
proof (induction names arbitrary: b result)
  case Nil
  then show ?case by simp
next
  case (Cons n names)
  obtain b1 r1 where step: "startActions_step lo b n = (b1, r1)" by (cases "startActions_step lo b n")
  from startActions_step_effect[OF step, of k] obtain evs where
    e1: "singletons b1 = singletons b" "trace b1 = trace b @ evs" "\<forall>e \<in> set evs. neutral k e"
    by blast
  show ?case
  proof (cases r1)
    case (Inl e)
    with Cons.prems step e1 show ?thesis by auto
  next
    case (Inr kv)
    with Cons.prems step
    have "startActions_loop lo b1 names (lodash_set lo result (fst kv) (snd kv)) = (b', r)"
      by (simp add: case_prod_beta)
    from Cons.IH[OF this] obtain evs' where
      "singletons b' = singletons b1" "trace b' = trace b1 @ evs'" "\<forall>e \<in> set evs'. neutral k e"
      by blast
    with e1 show ?thesis by (intro conjI exI[of _ "evs @ evs'"]) auto
  qed
qed

lemma isStarted_cong: "singletons b' = singletons b \<Longrightarrow> isStarted b' k = isStarted b k"
  by (simp add: isStarted_def)

lemma instOf_cong: "singletons b' = singletons b \<Longrightarrow> instOf b' k = instOf b k"
  by (simp add: instOf_def)

lemma startActions_once:
  assumes "startActions lo b names = (b', r)" and "startedOnce k b"
  shows "startedOnce k b'"
proof -
  from startActions_loop_effect[OF assms(1)[unfolded startActions_def], of k] obtain evs where
    "singletons b' = singletons b" "trace b' = trace b @ evs" "\<forall>e \<in> set evs. neutral k e"
    by blast
  with startedOnce_neutral[OF assms(2), of b' evs] isStarted_cong[of b' b k] show ?thesis by simp
qed

lemma startActions_keeps:
  assumes "startActions lo b names = (b', r)"
  shows "keeps k b b'"
proof -
  from startActions_loop_effect[OF assms(1)[unfolded startActions_def], of k] obtain evs where
    "singletons b' = singletons b" "trace b' = trace b @ evs" "\<forall>e \<in> set evs. neutral k e"
    by blast
  with isStarted_cong[of b' b k] instOf_cong[of b' b k] show ?thesis
    by (intro keeps_neutral[of b' b evs]) simp_all
qed

lemma stopSingletons_loop_once:
  "stopSingletons_loop b names = (b', r) \<Longrightarrow> startedOnce k b \<Longrightarrow> startedOnce k b'"
proof (induction names arbitrary: b)
  case Nil
  then show ?case by simp
next
  case (Cons n names)
  show ?case
  proof (cases "lookup (singletons b) n")
    case None
    with Cons.prems show ?thesis by simp
  next
    case (Some s)
    then obtain k0 where n: "n = Name k0" by (cases n) (auto simp: lookup_def)
    define b1 where "b1 = b\<lparr>trace := trace b @ [SingletonStop k0]\<rparr>"
    have once1: "startedOnce k b1"
    proof (cases "k0 = k")
      case True
      from startedOnce_stop[OF Cons.prems(2), of b1] True show ?thesis by (simp add: b1_def)
    next
      case False
      from startedOnce_other[OF Cons.prems(2), of b1 "SingletonStop k0"] False
      show ?thesis by (simp add: b1_def pendingStep_other_stop)
    qed
    show ?thesis
    proof (cases "stop s")
      case (Some e)
      with Cons.prems(1) \<open>lookup (singletons b) n = Some s\<close> n have "b' = b1"
        by (simp add: b1_def Let_def)
      with once1 show ?thesis by simp
    next
      case None
      define b2 where "b2 = b1\<lparr>singletons :=
          updEntry k0 (\<lambda>s. s\<lparr>started := False\<rparr>) (singletons b1)\<rparr>"
      from Cons.prems(1) \<open>lookup (singletons b) n = Some s\<close> n None
      have loop: "stopSingletons_loop b2 names = (b', r)"
        by (simp add: b1_def b2_def Let_def)
      have "startedOnce k b2"
      proof (cases "k0 = k")
        case True
        from startedOnce_stop[OF Cons.prems(2), of b2] True show ?thesis
          by (simp add: b1_def b2_def)
      next
        case False
        from startedOnce_same[OF once1, of b2] False show ?thesis
          by (simp add: b2_def isStarted_started_trace)
      qed
      from Cons.IH[OF loop this] show ?thesis .
    qed
  qed
qed


lemma startService_preserves:
  assumes services: "\<And>b f. P b \<Longrightarrow> P (b\<lparr>services := f\<rparr>)"
    and handler: "\<And>b e. P b \<Longrightarrow> neutral k e \<Longrightarrow> P (b\<lparr>trace := trace b @ [e]\<rparr>)"
    and sgls: "\<And>b names b' r. P b \<Longrightarrow> startSingletons b names = (b', r) \<Longrightarrow> P b'"
    and acts: "\<And>b names b' r. P b \<Longrightarrow> startActions lo b names = (b', r) \<Longrightarrow> P b'"
    and start: "P b"
  shows "P (fst (startService sort' lo b name))"
proof (cases "getServiceByName b name")
  case (Inl e)
  with start show ?thesis by (simp add: startService_def)
next
  case (Inr service)
  note service = this
  show ?thesis
  proof (cases "isRunning service")
    case True
    with service start show ?thesis by (simp add: startService_def isServiceRunning_def)
  next
    case False
    with service have run: "isServiceRunning b name = Inr False"
      by (simp add: isServiceRunning_def)
    define b1 where "b1 = b\<lparr>services := updEntry name (\<lambda>s. s\<lparr>isRunning := True\<rparr>) (services b)\<rparr>"
    have p1: "P b1" unfolding b1_def by (rule services[OF start])
    show ?thesis
    proof (cases "sortSingletons sort' (singletons b1) (serviceSingletons service)")
      case (Inl e)
      with service run have "startService sort' lo b name = (b1, Inl e)"
        by (simp add: startService_def b1_def Let_def)
      with p1 show ?thesis by simp
    next
      case (Inr ss)
      note ss = this
      define b2 where "b2 = b1\<lparr>services := updEntry name (\<lambda>s. s\<lparr>depSingletons := ss\<rparr>) (services b1)\<rparr>"
      have p2: "P b2" unfolding b2_def by (rule services[OF p1])
      show ?thesis
      proof (cases "sortActions sort' (actions b2)
          (serviceActions service @ localActionsNames name service) ss")
        case (Inl e)
        with service run ss have "startService sort' lo b name = (b2, Inl e)"
          by (simp add: startService_def b1_def b2_def Let_def localActionsNames_def)
        with p2 show ?thesis by simp
      next
        case (Inr as)
        note as = this
        define b3 where "b3 = b2\<lparr>services := updEntry name (\<lambda>s. s\<lparr>depActions := as\<rparr>) (services b2)\<rparr>"
        have p3: "P b3" unfolding b3_def by (rule services[OF p2])
        obtain b4 r4 where s4: "startSingletons b3 ss = (b4, r4)" by (cases "startSingletons b3 ss")
        note p4 = sgls[OF p3 s4]
        show ?thesis
        proof (cases r4)
          case (Inl e)
          with service run ss as s4 have "startService sort' lo b name = (b4, Inl e)"
            by (simp add: startService_def b1_def b2_def b3_def Let_def localActionsNames_def)
          with p4 show ?thesis by simp
        next
          case (Inr sgls')
          note r4 = this
          obtain b5 r5 where s5: "startActions lo b4 as = (b5, r5)" by (cases "startActions lo b4 as")
          note p5 = acts[OF p4 s5]
          show ?thesis
          proof (cases r5)
            case (Inl e)
            with service run ss as s4 r4 s5 have "startService sort' lo b name = (b5, Inl e)"
              by (simp add: startService_def b1_def b2_def b3_def Let_def localActionsNames_def)
            with p5 show ?thesis by simp
          next
            case (Inr acts')
            note r5 = this
            obtain b6 r6 where s6: "startActions lo b5 (map Name (localActionsNames name service)) = (b6, r6)"
              by (cases "startActions lo b5 (map Name (localActionsNames name service))")
            note p6 = acts[OF p5 s6]
            show ?thesis
            proof (cases r6)
              case (Inl e)
              with service run ss as s4 r4 s5 r5 s6 have "startService sort' lo b name = (b6, Inl e)"
                by (simp add: startService_def b1_def b2_def b3_def Let_def localActionsNames_def)
              with p6 show ?thesis by simp
            next
              case (Inr locals)
              define bag where "bag = Obj [(''singletons'', Obj (lodash_pick lo sgls' (serviceSingletons service))),
                     (''actions'', Obj (lodash_pick lo acts' (serviceActions service))),
                     (''localActions'', Obj locals)]"
              define b7 where "b7 = b6\<lparr>trace := trace b6 @ [ServiceStart name bag]\<rparr>"
              have "neutral k (ServiceStart name bag)" by (simp add: neutral_def)
              from handler[OF p6 this] have p7: "P b7" by (simp add: b7_def)
              from service run ss as s4 r4 s5 r5 s6 Inr
              have "fst (startService sort' lo b name) = b7"
                by (simp add: startService_def b1_def b2_def b3_def b7_def bag_def Let_def
                    localActionsNames_def split: option.splits)
              with p7 show ?thesis by simp
            qed
          qed
        qed
      qed
    qed
  qed
qed


lemma stopService_preserves:
  assumes services: "\<And>b f. P b \<Longrightarrow> P (b\<lparr>services := f\<rparr>)"
    and handler: "\<And>b e. P b \<Longrightarrow> neutral k e \<Longrightarrow> P (b\<lparr>trace := trace b @ [e]\<rparr>)"
    and loop: "\<And>b names b' r. P b \<Longrightarrow> stopSingletons_loop b names = (b', r) \<Longrightarrow> P b'"
    and start: "P b"
  shows "P (fst (stopService b name))"
proof (cases "getServiceByName b name")
  case (Inl e)
  with start show ?thesis by (simp add: stopService_def isServiceRunning_def)
next
  case (Inr service)
  note service = this
  show ?thesis
  proof (cases "isRunning service")
    case False
    with service start show ?thesis by (simp add: stopService_def isServiceRunning_def)
  next
    case True
    with service have run: "isServiceRunning b name = Inr True"
      by (simp add: isServiceRunning_def)
    define b1 where "b1 = (case stopHandler service of None \<Rightarrow> b
        | Some x \<Rightarrow> b\<lparr>trace := trace b @ [ServiceStop name]\<rparr>)"
    have "neutral k (ServiceStop name)" by (simp add: neutral_def)
    from handler[OF start this] start have p1: "P b1" by (simp add: b1_def split: option.splits)
    have h: "(case stopHandler service of None \<Rightarrow> (b, None)
          | Some outcome \<Rightarrow> (b\<lparr>trace := trace b @ [ServiceStop name]\<rparr>, outcome)) =
        (b1, case stopHandler service of None \<Rightarrow> None | Some outcome \<Rightarrow> outcome)"
      by (simp add: b1_def split: option.splits)
    show ?thesis
    proof (cases "case stopHandler service of None \<Rightarrow> None | Some outcome \<Rightarrow> outcome")
      case (Some e)
      with service run h have "stopService b name = (b1, Inl e)"
        by (simp add: stopService_def)
      with p1 show ?thesis by simp
    next
      case None
      note ok = this
      show ?thesis
      proof (cases "startedSingletons_reduce b1
          (filter (\<lambda>n. n \<noteq> name) (getRunningServices b1)) []")
        case (Inl e)
        with service run h ok have "stopService b name = (b1, Inl e)"
          by (simp add: stopService_def Let_def)
        with p1 show ?thesis by simp
      next
        case (Inr startedSingletons)
        define toStop where "toStop = filter (\<lambda>s. s \<notin> set startedSingletons) (depSingletons service)"
        obtain b2 r2 where l: "stopSingletons_loop b1 toStop = (b2, r2)"
          by (cases "stopSingletons_loop b1 toStop")
        note p2 = loop[OF p1 l]
        show ?thesis
        proof (cases r2)
          case (Inl e)
          with service run h ok Inr l have "stopService b name = (b2, Inl e)"
            by (simp add: stopService_def Let_def toStop_def)
          with p2 show ?thesis by simp
        next
          case (Inr u)
          with service run h ok \<open>startedSingletons_reduce b1
              (filter (\<lambda>n. n \<noteq> name) (getRunningServices b1)) [] = Inr startedSingletons\<close> l
          have "stopService b name =
              (b2\<lparr>services := updEntry name (\<lambda>s. s\<lparr>isRunning := False\<rparr>) (services b2)\<rparr>, Inr ())"
            by (simp add: stopService_def Let_def toStop_def)
          with services[OF p2] show ?thesis by simp
        qed
      qed
    qed
  qed
qed

lemma startService_once: "startedOnce k b \<Longrightarrow> startedOnce k (fst (startService sort' lo b name))"
proof (rule startService_preserves[where P = "startedOnce k" and k = k])
  show "startedOnce k (b\<lparr>services := f\<rparr>)" if "startedOnce k b" for b f
    using that by (simp add: startedOnce_def)
  show "startedOnce k (b\<lparr>trace := trace b @ [e]\<rparr>)" if "startedOnce k b" "neutral k e" for b e
    using startedOnce_neutral[OF that(1), of "b\<lparr>trace := trace b @ [e]\<rparr>" "[e]"] that(2) by simp
  show "startedOnce k b'" if "startedOnce k b" "startSingletons b names = (b', r)" for b names b' r
    using startSingletons_loop_once[OF that(2)[unfolded startSingletons_def] that(1)] .
  show "startedOnce k b'" if "startedOnce k b" "startActions lo b names = (b', r)" for b names b' r
    using startActions_once[OF that(2,1)] .
qed

lemma stopService_once: "startedOnce k b \<Longrightarrow> startedOnce k (fst (stopService b name))"
proof (rule stopService_preserves[where P = "startedOnce k" and k = k])
  show "startedOnce k (b\<lparr>services := f\<rparr>)" if "startedOnce k b" for b f
    using that by (simp add: startedOnce_def)
  show "startedOnce k (b\<lparr>trace := trace b @ [e]\<rparr>)" if "startedOnce k b" "neutral k e" for b e
    using startedOnce_neutral[OF that(1), of "b\<lparr>trace := trace b @ [e]\<rparr>" "[e]"] that(2) by simp
  show "startedOnce k b'" if "startedOnce k b" "stopSingletons_loop b names = (b', r)"
    for b names b' r
    using stopSingletons_loop_once[OF that(2,1)] .
qed

lemma run_once: "startedOnce k b \<Longrightarrow> startedOnce k (run sort' lo b calls)"
proof (induction calls arbitrary: b)
  case Nil
  then show ?case by simp
next
  case (Cons c calls)
  then show ?case by (cases c) (simp_all add: startService_once stopService_once)
qed

lemma startService_keeps: "keeps k b (fst (startService sort' lo b name))"
proof (rule startService_preserves[where P = "keeps k b" and k = k])
  show "keeps k b (b'\<lparr>services := f\<rparr>)" if "keeps k b b'" for b' f
    using that by (simp add: keeps_def)
  show "keeps k b (b'\<lparr>trace := trace b' @ [e]\<rparr>)" if "keeps k b b'" "neutral k e" for b' e
  proof -
    have "keeps k b' (b'\<lparr>trace := trace b' @ [e]\<rparr>)"
      by (rule keeps_neutral[of _ _ "[e]"]) (use that(2) in simp_all)
    with that(1) show ?thesis by (rule keeps_trans)
  qed
  show "keeps k b b''" if "keeps k b b'" "startSingletons b' names = (b'', r)" for b' names b'' r
    using keeps_trans[OF that(1) startSingletons_loop_keeps[OF that(2)[unfolded startSingletons_def]]] .
  show "keeps k b b''" if "keeps k b b'" "startActions lo b' names = (b'', r)" for b' names b'' r
    using keeps_trans[OF that(1) startActions_keeps[OF that(2)]] .
  show "keeps k b b" by (rule keeps_refl)
qed

lemma Broker_once:
  assumes "Broker sgl acts plgs srvs = Inr b"
  shows "startedOnce k b"
proof -
  from assms have "trace b = []"
    by (auto simp: Broker_def Let_def split: option.splits)
  then show ?thesis by (simp add: startedOnce_def atMostOnce_Nil pending_def)
qed

lemma startSingletons_step_stored:
  assumes "startSingletons_step b (Name k) = (b', Inr (k', v))"
  shows "k' = k \<and> isStarted b' k \<and> instOf b' k = v"
proof -
  from assms obtain s where s: "map_of (singletons b) k = Some s"
    by (auto simp: startSingletons_step_def split: option.splits)
  show ?thesis
  proof (cases "started s")
    case True
    with assms s show ?thesis
      by (auto simp: startSingletons_step_def isStarted_def instOf_def)
  next
    case False
    with assms s show ?thesis
      by (auto simp: startSingletons_step_def startSingletons_await_def Let_def isStarted_def
          instOf_def map_of_updEntry split: sum.splits)
  qed
qed

text \<open>
  C4 (as amended).  Along any sequence of \<^verbatim>\<open>startService\<close> and
  \<^verbatim>\<open>stopService\<close> calls issued one after the other, for the same or for different
  services and whatever their outcomes, the start routine of a singleton is invoked at most
  once between two invocations of its stop routine: the property holds of every broker the
  constructor returns and is kept by every call.  While a singleton is started, a
  \<^verbatim>\<open>startService\<close> call does not invoke its start routine and leaves it started
  with the same instance, and \<^verbatim>\<open>startSingletons\<close> returns the instance held by the
  registry entry, which all services share.  Once the turn of the loop that started a
  singleton has completed, that instance is the value the turn returned.  Before that, while
  the start routine is awaited, the flag is set and the instance is not assigned yet: a
  request that arrives then reads the instance as it was.
\<close>

theorem C4_start_routine_once:
  "(startedOnce k b \<longrightarrow> startedOnce k (run sort' lo b calls)) \<and>
   (Broker sgl acts plgs srvs = Inr b0 \<longrightarrow> atMostOnce k (trace (run sort' lo b0 calls))) \<and>
   (isStarted b k \<and> startService sort' lo b name = (b', r) \<longrightarrow>
      isStarted b' k \<and> instOf b' k = instOf b k \<and>
      (\<forall>bag. SingletonStart k bag \<notin> set (newEvents b b'))) \<and>
   (isStarted b k \<and> startSingletons b names = (b'', Inr result) \<and> Name k \<in> set names \<longrightarrow>
      map_of result k = Some (instOf b k)) \<and>
   (startSingletons_step b (Name k) = (b1, Inr (k', v)) \<longrightarrow>
      k' = k \<and> isStarted b1 k \<and> instOf b1 k = v)"
proof (intro conjI)
  show "startedOnce k b \<longrightarrow> startedOnce k (run sort' lo b calls)"
    using run_once by blast
  show "Broker sgl acts plgs srvs = Inr b0 \<longrightarrow> atMostOnce k (trace (run sort' lo b0 calls))"
    using run_once[OF Broker_once, of sgl acts plgs srvs b0 k sort' lo calls]
    by (simp add: startedOnce_def)
  show "isStarted b k \<and> startService sort' lo b name = (b', r) \<longrightarrow>
      isStarted b' k \<and> instOf b' k = instOf b k \<and>
      (\<forall>bag. SingletonStart k bag \<notin> set (newEvents b b'))"
    using startService_keeps[of k b sort' lo name] by (auto simp: keeps_def newEvents_def)
  show "isStarted b k \<and> startSingletons b names = (b'', Inr result) \<and> Name k \<in> set names \<longrightarrow>
      map_of result k = Some (instOf b k)"
    using startSingletons_loop_cached[of b names "[]" b'' result k]
    by (simp add: startSingletons_def)
  show "startSingletons_step b (Name k) = (b1, Inr (k', v)) \<longrightarrow>
      k' = k \<and> isStarted b1 k \<and> instOf b1 k = v"
    using startSingletons_step_stored[of b k b1 k' v] by blast
qed

lemmas start_defs = startService_def startSingletons_def startSingletons_step_def
  startSingletons_await_def
  startActions_def isServiceRunning_def getServiceByName_def updEntry_def keyLodash_def pickKeys_def

lemma exFresh_constructed:
  "Broker [(''s1'', exSingleton [] (Num 1)), (''s2'', exSingleton [''s1''] (Num 2))] [] []
     [(''A'', exService [''s2''] []), (''B'', exService [''s1''] [])] = Inr exFresh"
  by (simp add: Broker_cases checkServices_def checkSingletons_def checkActions_def
      truthyAt_def withLocalActions_def exFresh_def exSingleton_def exService_def)

lemma exFresh_startA:
  "startService toposort keyLodash exFresh ''A'' =
     (exFresh\<lparr>singletons :=
        [(''s1'', (exSingleton [] (Num 1))\<lparr>started := True, inst := Num 1\<rparr>),
         (''s2'', (exSingleton [''s1''] (Num 2))\<lparr>started := True, inst := Num 2\<rparr>)],
       services :=
        [(''A'', (exService [''s2''] [])\<lparr>isRunning := True,
                   depSingletons := [Name ''s1'', Name ''s2'']\<rparr>),
         (''B'', exService [''s1''] [])],
       trace :=
        [SingletonStart ''s1'' (singletonBag []),
         SingletonStart ''s2'' (singletonBag [(''s1'', Num 1)]),
         ServiceStart ''A'' (Obj [(''singletons'', Obj [(''s2'', Num 2)]),
            (''actions'', Obj []), (''localActions'', Obj [])])]\<rparr>, Inr ())"
  by (simp add: exFresh_def exSingleton_def exService_def start_defs sort_defs singletonBag_def)


lemma exRunning_reached:
  "run toposort keyLodash exFresh [StartService ''A'', StartService ''B''] =
     exRunning\<lparr>trace :=
        [SingletonStart ''s1'' (singletonBag []),
         SingletonStart ''s2'' (singletonBag [(''s1'', Num 1)]),
         ServiceStart ''A'' (Obj [(''singletons'', Obj [(''s2'', Num 2)]),
            (''actions'', Obj []), (''localActions'', Obj [])]),
         ServiceStart ''B'' (Obj [(''singletons'', Obj [(''s1'', Num 1)]),
            (''actions'', Obj []), (''localActions'', Obj [])])]\<rparr>"
  by (simp add: exFresh_startA)
     (simp add: exFresh_def exRunning_def exSingleton_def exService_def start_defs sort_defs)

text \<open>
  The names of the examples are plain, so what a request reads while the start routine of
  \<open>s1\<close> is awaited does not depend on what the library does with paths.
\<close>

lemma plainLodash_pick:
  assumes "plainLodash lo" and "list_all (\<lambda>k. plainKey k \<and> k \<notin> set objectPrototype) ks"
  shows "lodash_pick lo obj ks = pickKeys obj ks"
  using assms by (simp add: plainLodash_def list_all_iff)

lemma exPending_startB:
  assumes "plainLodash lo"
  shows "newEvents exPending (fst (startService toposort lo exPending ''B'')) =
     [ServiceStart ''B'' (Obj [(''singletons'', Obj [(''s1'', Undefined)]),
        (''actions'', Obj []), (''localActions'', Obj [])])]"
proof -
  have p1: "lodash_pick lo obj [''s1''] = pickKeys obj [''s1'']" for obj
    by (rule plainLodash_pick[OF assms])
      (simp add: plainKey_def wordChar_def objectPrototype_def)
  have p0: "lodash_pick lo obj [] = pickKeys obj []" for obj
    by (rule plainLodash_pick[OF assms]) simp
  show ?thesis
    by (simp add: exPending_def exResolved_def exFresh_def exSingleton_def exService_def
        startService_def startSingletons_def startSingletons_step_def startSingletons_await_def
        startActions_def isServiceRunning_def getServiceByName_def updEntry_def pickKeys_def
        sort_defs newEvents_def singletonBag_def p1 p0)
qed

theorem C4_start_routine_once_witness:
  "atMostOnce ''s1'' (trace (run toposort keyLodash exFresh
      [StartService ''A'', StartService ''B'', StopService ''A'', StartService ''A''])) \<and>
   startedOnce ''s1'' (run toposort keyLodash exFresh
      [StartService ''A'', StartService ''B'', StopService ''A'', StartService ''A'']) \<and>
   isStarted (fst (startService toposort keyLodash (fst (startService toposort keyLodash exFresh ''A'')) ''B'')) ''s1'' \<and>
   instOf (fst (startService toposort keyLodash (fst (startService toposort keyLodash exFresh ''A'')) ''B'')) ''s1'' =
     Num 1 \<and>
   snd (startSingletons exRunning [Name ''s1'']) = Inr [(''s1'', Num 1)] \<and>
   snd (startSingletons_step exResolved (Name ''s1'')) = Inr (''s1'', Num 1) \<and>
   instOf (fst (startSingletons_step exResolved (Name ''s1''))) ''s1'' = Num 1"
proof -
  note c4 = C4_start_routine_once[of "''s1''" "fst (startService toposort keyLodash exFresh ''A'')" toposort
      keyLodash
      "[StartService ''A'', StartService ''B'', StopService ''A'', StartService ''A'']"
      _ _ _ _ exFresh "''B''"
      "fst (startService toposort keyLodash (fst (startService toposort keyLodash exFresh ''A'')) ''B'')"
      "snd (startService toposort keyLodash (fst (startService toposort keyLodash exFresh ''A'')) ''B'')"]
  from c4[THEN conjunct2, THEN conjunct1, rule_format, OF exFresh_constructed]
  have once: "atMostOnce ''s1'' (trace (run toposort keyLodash exFresh
      [StartService ''A'', StartService ''B'', StopService ''A'', StartService ''A'']))" .
  have fresh: "startedOnce ''s1'' exFresh"
    by (simp add: startedOnce_def atMostOnce_Nil pending_def exFresh_def)
  from C4_start_routine_once[of "''s1''" exFresh toposort keyLodash
      "[StartService ''A'', StartService ''B'', StopService ''A'', StartService ''A'']",
      THEN conjunct1, rule_format, OF fresh]
  have inv: "startedOnce ''s1'' (run toposort keyLodash exFresh
      [StartService ''A'', StartService ''B'', StopService ''A'', StartService ''A''])" .
  have started: "isStarted (fst (startService toposort keyLodash exFresh ''A'')) ''s1''"
    "instOf (fst (startService toposort keyLodash exFresh ''A'')) ''s1'' = Num 1"
    unfolding exFresh_startA by (simp_all add: isStarted_def instOf_def exFresh_def)
  from c4[THEN conjunct2, THEN conjunct2, THEN conjunct1, rule_format, OF conjI[OF started(1)]]
  have kept: "isStarted (fst (startService toposort keyLodash (fst (startService toposort keyLodash exFresh ''A'')) ''B'')) ''s1'' \<and>
    instOf (fst (startService toposort keyLodash (fst (startService toposort keyLodash exFresh ''A'')) ''B'')) ''s1'' =
      instOf (fst (startService toposort keyLodash exFresh ''A'')) ''s1''"
    by simp
  have ss: "startSingletons exRunning [Name ''s1''] = (exRunning, Inr [(''s1'', Num 1)])"
    by (simp add: ex_defs start_defs)
  have "isStarted exRunning ''s1'' \<and>
      startSingletons exRunning [Name ''s1''] = (exRunning, Inr [(''s1'', Num 1)]) \<and>
      Name ''s1'' \<in> set [Name ''s1'']"
    using ss by (simp add: isStarted_def ex_defs)
  from C4_start_routine_once[of "''s1''" exRunning _ _ _ _ _ _ _ _ _ _ _ "[Name ''s1'']" exRunning
      "[(''s1'', Num 1)]", THEN conjunct2, THEN conjunct2, THEN conjunct2, THEN conjunct1,
      rule_format, OF this]
  have cached: "map_of [(''s1'', Num 1)] ''s1'' = Some (instOf exRunning ''s1'')" .
  have ret: "snd (startSingletons_step exResolved (Name ''s1'')) = Inr (''s1'', Num 1)"
    by (simp add: exResolved_def exFresh_def exSingleton_def exService_def
        startSingletons_step_def Let_def)
  then have "startSingletons_step exResolved (Name ''s1'') =
      (fst (startSingletons_step exResolved (Name ''s1'')), Inr (''s1'', Num 1))"
    by (metis prod.collapse)
  from C4_start_routine_once[of "''s1''" exResolved _ _ _ _ _ _ _ _ _ _ _ _ _ _
      "fst (startSingletons_step exResolved (Name ''s1''))" "''s1''" "Num 1",
      THEN conjunct2, THEN conjunct2, THEN conjunct2, THEN conjunct2, rule_format, OF this]
  have stored: "instOf (fst (startSingletons_step exResolved (Name ''s1''))) ''s1'' = Num 1"
    by simp
  from once inv kept started(2) ss ret stored show ?thesis by simp
qed

theorem C4_start_routine_once_counterexample:
  "startService toposort keyLodash exFresh ''A'' =
     (case startSingletons exResolved [Name ''s1'', Name ''s2''] of
        (b4, Inl e) \<Rightarrow> (b4, Inl e)
      | (b4, Inr sgls) \<Rightarrow>
          (b4\<lparr>trace := trace b4 @
              [ServiceStart ''A'' (Obj [(''singletons'', Obj (pickKeys sgls [''s2''])),
                 (''actions'', Obj []), (''localActions'', Obj [])])]\<rparr>, Inr ())) \<and>
   startSingletons_step exResolved (Name ''s1'') =
     (exPending\<lparr>singletons :=
        updEntry ''s1'' (\<lambda>s. s\<lparr>inst := Num 1\<rparr>) (singletons exPending)\<rparr>,
      Inr (''s1'', Num 1)) \<and>
   isStarted exPending ''s1'' \<and>
   snd (startSingletons exPending [Name ''s1'']) = Inr [(''s1'', Undefined)] \<and>
   newEvents exPending (fst (startService toposort keyLodash exPending ''B'')) =
     [ServiceStart ''B'' (Obj [(''singletons'', Obj [(''s1'', Undefined)]),
        (''actions'', Obj []), (''localActions'', Obj [])])] \<and>
   newEvents (fst (startService toposort keyLodash exFresh ''A''))
       (fst (startService toposort keyLodash (fst (startService toposort keyLodash exFresh ''A'')) ''B'')) =
     [ServiceStart ''B'' (Obj [(''singletons'', Obj [(''s1'', Num 1)]),
        (''actions'', Obj []), (''localActions'', Obj [])])]"
proof (intro conjI)
  show "newEvents (fst (startService toposort keyLodash exFresh ''A''))
       (fst (startService toposort keyLodash (fst (startService toposort keyLodash exFresh ''A'')) ''B'')) =
     [ServiceStart ''B'' (Obj [(''singletons'', Obj [(''s1'', Num 1)]),
        (''actions'', Obj []), (''localActions'', Obj [])])]"
    unfolding exFresh_startA
    by (simp add: exFresh_def exSingleton_def exService_def start_defs sort_defs newEvents_def)
  show "startService toposort keyLodash exFresh ''A'' =
     (case startSingletons exResolved [Name ''s1'', Name ''s2''] of
        (b4, Inl e) \<Rightarrow> (b4, Inl e)
      | (b4, Inr sgls) \<Rightarrow>
          (b4\<lparr>trace := trace b4 @
              [ServiceStart ''A'' (Obj [(''singletons'', Obj (pickKeys sgls [''s2''])),
                 (''actions'', Obj []), (''localActions'', Obj [])])]\<rparr>, Inr ()))"
    unfolding exFresh_startA
    by (simp add: exResolved_def exFresh_def exSingleton_def exService_def start_defs singletonBag_def)
  show "startSingletons_step exResolved (Name ''s1'') =
     (exPending\<lparr>singletons :=
        updEntry ''s1'' (\<lambda>s. s\<lparr>inst := Num 1\<rparr>) (singletons exPending)\<rparr>,
      Inr (''s1'', Num 1))"
    by (simp add: exPending_def exResolved_def exFresh_def exSingleton_def exService_def
        startSingletons_step_def singletonBag_def Let_def)
  show "isStarted exPending ''s1''"
    by (simp add: exPending_def exResolved_def exFresh_def exSingleton_def exService_def
        startSingletons_await_def isStarted_def updEntry_def)
  show "snd (startSingletons exPending [Name ''s1'']) = Inr [(''s1'', Undefined)]"
    by (simp add: exPending_def exResolved_def exFresh_def exSingleton_def exService_def
        start_defs)
  show "newEvents exPending (fst (startService toposort keyLodash exPending ''B'')) =
     [ServiceStart ''B'' (Obj [(''singletons'', Obj [(''s1'', Undefined)]),
        (''actions'', Obj []), (''localActions'', Obj [])])]"
    by (simp add: exPending_def exResolved_def exFresh_def exSingleton_def exService_def
        start_defs sort_defs newEvents_def singletonBag_def)
qed

end
